theory Spec2Isabelle
  imports Main "HOL-Library.Word" "HOL-Library.Multiset"
begin

section \<open>The Go standard library, as far as \<open>check.go\<close> calls it\<close>

text \<open>
  Go strings are byte sequences: \<^typ>\<open>string\<close>. Go's \<open>int\<close> (on a 64-bit platform) and
  \<open>int64\<close> are \<^typ>\<open>64 word\<close>, read as two's complement by \<^const>\<open>sint\<close>.
\<close>

type_synonym int64 = "64 word"

subsection \<open>Errors and panics\<close>

text \<open>
  A Go \<open>error\<close> value. \<open>NumError f s e\<close> is \<open>*strconv.NumError{Func: f, Num: s, Err: e}\<close>;
  \<open>Errorf m e\<close> is \<open>fmt.Errorf(m ++ "%s", e)\<close>; \<open>IndexOutOfRange i n\<close> is the runtime error
  of reading index \<open>i\<close> of a slice of length \<open>n\<close>; \<open>Opaque m\<close> is an error of a collaborator
  (the Github client, \<open>filepath.Match\<close>), known by its message only.
\<close>

datatype NumErr = ErrSyntax | ErrRange

datatype error =
    NumError string string NumErr
  | Errorf string error
  | IndexOutOfRange nat nat
  | Opaque string

text \<open>How a call ends when it does not return a value: with an error result, or by a panic.\<close>

datatype failure = Returned error | Panicked error

subsection \<open>Package \<open>strings\<close>\<close>

text \<open>\<open>strings.Contains(s, substr)\<close>.\<close>

fun strings_Contains :: "string \<Rightarrow> string \<Rightarrow> bool" where
  "strings_Contains [] substr = (substr = [])"
| "strings_Contains (c # cs) substr =
     (take (length substr) (c # cs) = substr \<or> strings_Contains cs substr)"

text \<open>
  \<open>strings.Split(s, sep)\<close> for a separator of one byte, the only kind \<open>check.go\<close> uses.
  A string without the separator, the empty one too, gives the one-element slice \<open>[s]\<close>.
\<close>

fun strings_Split :: "string \<Rightarrow> char \<Rightarrow> string list" where
  "strings_Split [] sep = [[]]"
| "strings_Split (c # cs) sep =
     (if c = sep then [] # strings_Split cs sep
      else (case strings_Split cs sep of
              [] \<Rightarrow> [[c]]
            | f # fs \<Rightarrow> (c # f) # fs))"

text \<open>\<open>strings.Join(elems, sep)\<close>.\<close>

fun strings_Join :: "string list \<Rightarrow> string \<Rightarrow> string" where
  "strings_Join [] sep = []"
| "strings_Join [e] sep = e"
| "strings_Join (e # e' # es) sep = e @ sep @ strings_Join (e' # es) sep"

subsection \<open>Package \<open>strconv\<close>\<close>

text \<open>
  Decimal digits as bytes. \<open>digit_char d\<close> is \<open>byte('0' + d)\<close>, and \<open>digit_val c\<close> is
  \<open>c - '0'\<close>, for a byte between \<open>'0'\<close> and \<open>'9'\<close>.
\<close>

type_synonym uint64 = "64 word"

definition digit_char :: "uint64 \<Rightarrow> char" where
  "digit_char d = char_of (48 + unat d)"

definition is_digit :: "char \<Rightarrow> bool" where
  "is_digit c = (48 \<le> (of_char c :: nat) \<and> (of_char c :: nat) \<le> 57)"

definition digit_val :: "char \<Rightarrow> uint64" where
  "digit_val c = word_of_nat (of_char c - 48)"

text \<open>
  \<open>strconv.FormatUint(u, 10)\<close>: the decimal digits of \<open>u\<close>, most significant first. Go
  fills a buffer from its end with \<open>u - (u/10)*10\<close>, which is \<open>u mod 10\<close>, until \<open>u < 10\<close>.
\<close>

function FormatUint :: "uint64 \<Rightarrow> string" where
  "FormatUint u = (if u < 10 then [digit_char u] else FormatUint (u div 10) @ [digit_char (u mod 10)])"
  by pat_completeness auto
termination
proof (relation "measure unat")
  show "wf (measure unat)" by simp
next
  fix u :: uint64
  assume "\<not> u < 10"
  then have "10 \<le> unat u" by (simp add: word_less_nat_alt)
  then show "(u div 10, u) \<in> measure unat" by (simp add: unat_div)
qed

declare FormatUint.simps [simp del]

text \<open>
  \<open>strconv.FormatInt(i, 10)\<close>: for a negative \<open>i\<close>, a minus sign and the digits of \<open>-i\<close> taken
  as an unsigned value.
\<close>

definition FormatInt :: "int64 \<Rightarrow> string" where
  "FormatInt i = (if sint i < 0 then CHR ''-'' # FormatUint (- i) else FormatUint i)"

text \<open>\<open>strconv.Itoa(i)\<close> is \<open>FormatInt(int64(i), 10)\<close>.\<close>

definition Itoa :: "int64 \<Rightarrow> string" where
  "Itoa i = FormatInt i"

text \<open>
  The digit loop of \<open>strconv.ParseUint(s, 10, 64)\<close>, from the accumulated value \<open>n\<close>. A byte
  that is no decimal digit is a syntax error. A value that leaves 64 bits is a range error,
  reported at the digit where it happens: \<open>cutoff10\<close> is \<open>maxUint64/10 + 1\<close>, the least value
  whose tenfold overflows, and the sum \<open>n1\<close> has wrapped around when it is below \<open>n * 10\<close>.
\<close>

definition maxUint64 :: uint64 where
  "maxUint64 = 18446744073709551615"

definition cutoff10 :: uint64 where
  "cutoff10 = 1844674407370955162"

fun ParseUint_loop :: "uint64 \<Rightarrow> string \<Rightarrow> NumErr + uint64" where
  "ParseUint_loop n [] = Inr n"
| "ParseUint_loop n (c # cs) =
     (if \<not> is_digit c then Inl ErrSyntax
      else if n \<ge> cutoff10 then Inl ErrRange
      else let n10 = n * 10; n1 = n10 + digit_val c in
        if n1 < n10 \<or> n1 > maxUint64 then Inl ErrRange
        else ParseUint_loop n1 cs)"

definition ParseUint :: "string \<Rightarrow> NumErr + uint64" where
  "ParseUint s = (if s = [] then Inl ErrSyntax else ParseUint_loop 0 s)"

text \<open>
  \<open>strconv.ParseInt(s, 10, 64)\<close>: an optional sign, then \<open>ParseUint\<close>, then the range check
  of a signed 64-bit value against \<open>cutoff\<close>, which is \<open>1 << 63\<close>, then the conversion
  \<open>int64(un)\<close>, negated after a minus sign.
\<close>

definition ParseInt :: "string \<Rightarrow> error + int64" where
  "ParseInt s0 =
     (if s0 = [] then Inl (NumError ''ParseInt'' s0 ErrSyntax)
      else
        let cutoff = (9223372036854775808 :: uint64);
            neg = (hd s0 = CHR ''-'');
            s = (if hd s0 = CHR ''+'' \<or> hd s0 = CHR ''-'' then tl s0 else s0)
        in case ParseUint s of
             Inl ErrSyntax \<Rightarrow> Inl (NumError ''ParseInt'' s0 ErrSyntax)
           | Inl ErrRange \<Rightarrow> Inl (NumError ''ParseInt'' s0 ErrRange)
           | Inr un \<Rightarrow>
               if \<not> neg \<and> un \<ge> cutoff then Inl (NumError ''ParseInt'' s0 ErrRange)
               else if neg \<and> un > cutoff then Inl (NumError ''ParseInt'' s0 ErrRange)
               else Inr (if neg then - un else un))"

text \<open>\<open>strconv.ParseBool(str)\<close>.\<close>

definition ParseBool :: "string \<Rightarrow> error + bool" where
  "ParseBool str =
     (if str \<in> set [''1'', ''t'', ''T'', ''TRUE'', ''true'', ''True''] then Inr True
      else if str \<in> set [''0'', ''f'', ''F'', ''FALSE'', ''false'', ''False''] then Inr False
      else Inl (NumError ''ParseBool'' str ErrSyntax))"

subsection \<open>Package \<open>time\<close>\<close>

text \<open>
  A \<open>time.Time\<close> without monotonic clock reading: \<open>ext\<close> is the number of seconds since
  January 1 of year 1, a signed 64-bit value, and \<open>nsec\<close> the nanoseconds within the second.
\<close>

record Time =
  ext :: int64
  nsec :: nat

definition unixToInternal :: int64 where
  "unixToInternal = 62135596800"

text \<open>\<open>t.Unix()\<close>: seconds since 1970; the addition wraps as Go's does.\<close>

definition Time_Unix :: "Time \<Rightarrow> int64" where
  "Time_Unix t = ext t + (- unixToInternal)"

text \<open>\<open>time.Unix(sec, 0)\<close>.\<close>

definition time_Unix :: "int64 \<Rightarrow> Time" where
  "time_Unix s = \<lparr>ext = s + unixToInternal, nsec = 0\<rparr>"

text \<open>\<open>t.After(u)\<close>.\<close>

definition After :: "Time \<Rightarrow> Time \<Rightarrow> bool" where
  "After t u = (sint (ext t) > sint (ext u) \<or> ext t = ext u \<and> nsec t > nsec u)"

subsection \<open>Slices and \<open>append\<close>\<close>

text \<open>
  A Go slice is a header: the address of its backing array, its length and its capacity.
  The arrays live in a store, by address; \<open>fresh\<close> is the next address that an allocation
  takes, and address 0 is the array of the \<open>nil\<close> slice. Of an array the store keeps the
  cells written so far. \<open>elems\<close> reads the elements of a slice.

  The slices of pull requests that \<open>Check\<close> builds are modelled so, since \<open>Check\<close> appends
  one of them to another and then sorts the outcome in place. Where a slice never shares its
  array with another slice that is read afterwards, it is a list.
\<close>

type_synonym addr = nat

record slice =
  array :: addr
  len :: nat
  cap :: nat

record 'a store =
  arrays :: "addr \<Rightarrow> 'a list"
  fresh :: addr

definition no_arrays :: "'a store" where
  "no_arrays = \<lparr>arrays = (\<lambda>a. []), fresh = 1\<rparr>"

definition nil_slice :: slice where
  "nil_slice = \<lparr>array = 0, len = 0, cap = 0\<rparr>"

definition elems :: "'a store \<Rightarrow> slice \<Rightarrow> 'a list" where
  "elems \<sigma> s = take (len s) (arrays \<sigma> (array s))"

text \<open>
  \<open>append(s, xs...)\<close>. When the capacity of \<open>s\<close> holds the new elements, they are written
  into the array of \<open>s\<close>, behind its length, and the result shares that array. Otherwise a
  new array takes the elements of \<open>s\<close> and the new ones. The capacity of the new array is
  the runtime's choice (\<open>growslice\<close>), a parameter \<open>grow\<close> here: from the old capacity and
  the capacity needed to the new capacity, which is never less than the one needed.
\<close>

type_synonym growslice = "nat \<Rightarrow> nat \<Rightarrow> nat"

definition append_slice :: "growslice \<Rightarrow> 'a store \<Rightarrow> slice \<Rightarrow> 'a list \<Rightarrow> 'a store \<times> slice" where
  "append_slice grow \<sigma> s xs =
     (let n = len s + length xs in
      if n \<le> cap s
      then (\<sigma>\<lparr>arrays := (arrays \<sigma>)
                (array s := take (len s) (arrays \<sigma> (array s)) @ xs @ drop n (arrays \<sigma> (array s)))\<rparr>,
            s\<lparr>len := n\<rparr>)
      else (\<sigma>\<lparr>arrays := (arrays \<sigma>)(fresh \<sigma> := elems \<sigma> s @ xs), fresh := fresh \<sigma> + 1\<rparr>,
            \<lparr>array = fresh \<sigma>, len = n, cap = max n (grow (cap s) n)\<rparr>))"

text \<open>
  The rule of Go's runtime for a short slice of pointers that grows by one element at a time:
  the capacity doubles, unless more than the double is needed. It is what the runtime does on
  the capacities 1, 2 and 4 that the examples below reach; on long slices the runtime rounds
  the capacity to a size class and grows by less than the double, in a way that depends on
  its version. The general properties below are proved for every \<open>grow\<close>.
\<close>

definition doubling :: growslice where
  "doubling oldcap needed = (if needed > oldcap + oldcap then needed else oldcap + oldcap)"

subsection \<open>Package \<open>sort\<close>\<close>

text \<open>
  \<open>sort.Sort(data)\<close> orders a slice in place, by the \<open>Less\<close> method of its type. On a slice
  of at most 12 elements Go runs the insertion sort below: element \<open>i\<close> is swapped towards the front while it
  is \<open>Less\<close> than its left neighbour. \<open>insertLeft\<close> works on the sorted prefix held in
  reverse, its head being the left neighbour. On a longer slice Go sorts by other means, which are
  not stable, and the outcome can differ in the order of elements neither of which is \<open>Less\<close>
  than the other; the properties proved below rest only on the outcome being an ordered rearrangement
  (\<open>mset_sort_Sort\<close>, \<open>sorted_sort_Sort\<close>).

  \<open>sort_Sort\<close> is the effect on the elements; \<open>sort_Sort_in_place\<close> is the effect on the
  store, where every slice that shares the array sees it.
\<close>

fun insertLeft :: "('a \<Rightarrow> 'a \<Rightarrow> bool) \<Rightarrow> 'a \<Rightarrow> 'a list \<Rightarrow> 'a list" where
  "insertLeft lt x [] = [x]"
| "insertLeft lt x (y # ys) = (if lt x y then y # insertLeft lt x ys else x # y # ys)"

definition sort_Sort :: "('a \<Rightarrow> 'a \<Rightarrow> bool) \<Rightarrow> 'a list \<Rightarrow> 'a list" where
  "sort_Sort lt data = rev (foldl (\<lambda>front x. insertLeft lt x front) [] data)"

definition sort_Sort_in_place :: "('a \<Rightarrow> 'a \<Rightarrow> bool) \<Rightarrow> 'a store \<Rightarrow> slice \<Rightarrow> 'a store" where
  "sort_Sort_in_place lt \<sigma> data =
     \<sigma>\<lparr>arrays := (arrays \<sigma>)
        (array data := sort_Sort lt (elems \<sigma> data) @ drop (len data) (arrays \<sigma> (array data)))\<rparr>"

section \<open>The data model (\<open>models.go\<close>)\<close>

text \<open>The configuration of the resource.\<close>

record Source =
  Repository :: string
  AccessToken :: string
  V3Endpoint :: string
  V4Endpoint :: string
  Paths :: "string list"
  IgnorePaths :: "string list"
  DisableCISkip :: string

text \<open>The decoded form of one entry of \<open>Version.AlreadySeen\<close>.\<close>

record AlreadySeenVersion =
  PR :: string
  committedDate :: Time

text \<open>The version communicated with Concourse.\<close>

record Version =
  PR :: string
  Commit :: string
  CommittedDate :: Time
  AlreadySeen :: string

text \<open>The commit node; \<open>Author.User.Login\<close> is flattened into one field.\<close>

record CommitObject =
  ID :: string
  OID :: string
  CommittedDate :: Time
  Message :: string
  Author_User_Login :: string

text \<open>The pull request node, and the pull request with its tip, which embeds the node.\<close>

record PullRequestObject =
  ID :: string
  Number :: int64
  Title :: string
  URL :: string
  BaseRefName :: string
  HeadRefName :: string
  Repository_URL :: string

record PullRequest = PullRequestObject +
  Tip :: CommitObject

definition NewVersion :: "PullRequest \<Rightarrow> string \<Rightarrow> Version" where
  "NewVersion p alreadySeen =
     \<lparr>Version.PR = PullRequestObject.ID p,
      Commit = CommitObject.ID (Tip p),
      Version.CommittedDate = CommitObject.CommittedDate (Tip p),
      AlreadySeen = alreadySeen\<rparr>"

record CheckRequest =
  Source :: Source
  Version :: Version

text \<open>
  The \<open>Github\<close> interface, as far as \<open>Check\<close> calls it. Each method answers with a value
  or an error; within one check the answer is a function of the arguments.
\<close>

record Github =
  ListOpenPullRequests :: "error + PullRequest list"
  ListModifiedFiles :: "int64 \<Rightarrow> error + string list"

section \<open>The check (\<open>check.go\<close>)\<close>

subsection \<open>The ledger codec\<close>

definition GetVersionStringFromPullRequest :: "PullRequest \<Rightarrow> string" where
  "GetVersionStringFromPullRequest pull =
     Itoa (Number pull) @ '':'' @ FormatInt (Time_Unix (CommitObject.CommittedDate (Tip pull)))"

text \<open>
  \<open>ExtractVersionFromVersionString\<close> reads \<open>pairs[1]\<close> unguarded and panics with the error
  of \<open>ParseInt\<close>: \<open>Inl\<close> is the value of the panic.
\<close>

definition ExtractVersionFromVersionString :: "string \<Rightarrow> error + AlreadySeenVersion" where
  "ExtractVersionFromVersionString alreadySeenPair =
     (let pairs = strings_Split alreadySeenPair CHR '':'' in
      if length pairs \<le> 1 then Inl (IndexOutOfRange 1 (length pairs))
      else case ParseInt (pairs ! 1) of
             Inl err \<Rightarrow> Inl err
           | Inr committedDateAsInt \<Rightarrow>
               Inr \<lparr>AlreadySeenVersion.PR = pairs ! 0,
                    committedDate = time_Unix committedDateAsInt\<rparr>)"

definition GenerateVersion :: "PullRequest list \<Rightarrow> string" where
  "GenerateVersion pulls = strings_Join (map GetVersionStringFromPullRequest pulls) '',''"

subsection \<open>The fold classifier\<close>

text \<open>
  The loop of \<open>AboveTheFold\<close> over the entries of the ledger; the state is
  \<open>(isAboveTheFold, isFoundInPairs)\<close>.
\<close>

fun AboveTheFold_loop :: "AlreadySeenVersion \<Rightarrow> string list \<Rightarrow> bool \<times> bool \<Rightarrow> error + bool \<times> bool" where
  "AboveTheFold_loop pullRequest [] st = Inr st"
| "AboveTheFold_loop pullRequest (pair # pairs) (isAboveTheFold, isFoundInPairs) =
     (case ExtractVersionFromVersionString pair of
        Inl err \<Rightarrow> Inl err
      | Inr thisPairVersion \<Rightarrow>
          if AlreadySeenVersion.PR thisPairVersion = AlreadySeenVersion.PR pullRequest
          then AboveTheFold_loop pullRequest pairs
                 (if After (committedDate pullRequest) (committedDate thisPairVersion)
                  then True else isAboveTheFold, True)
          else AboveTheFold_loop pullRequest pairs (isAboveTheFold, isFoundInPairs))"

definition AboveTheFold :: "string \<Rightarrow> string \<Rightarrow> error + bool" where
  "AboveTheFold pullRequestVersion alreadySeen =
     (if \<not> strings_Contains alreadySeen '':'' then Inr True
      else
        let pairs = strings_Split alreadySeen CHR '','' in
        case ExtractVersionFromVersionString pullRequestVersion of
          Inl err \<Rightarrow> Inl err
        | Inr pullRequest \<Rightarrow>
            (case AboveTheFold_loop pullRequest pairs (False, False) of
               Inl err \<Rightarrow> Inl err
             | Inr (isAboveTheFold, isFoundInPairs) \<Rightarrow>
                 Inr (if \<not> isFoundInPairs then True else isAboveTheFold)))"

subsection \<open>The filters\<close>

text \<open>
  \<open>ContainsSkipCI\<close> matches the regular expression \<open>(?i)\[(ci skip|skip ci)\]\<close> anywhere in
  the string. Under \<open>(?i)\<close> a letter matches each member of its case-folding orbit; beside
  the two ASCII cases, \<open>s\<close> has U+017F and \<open>k\<close> has U+212A, matched here by their UTF-8
  bytes. \<open>matches_here\<close> matches a sequence of such literals at the start of a string.
\<close>

definition foldings :: "char \<Rightarrow> string list" where
  "foldings c =
     (if c = CHR ''c'' then [''c'', ''C'']
      else if c = CHR ''i'' then [''i'', ''I'']
      else if c = CHR ''p'' then [''p'', ''P'']
      else if c = CHR ''s'' then [''s'', ''S'', [CHR 0xC5, CHR 0xBF]]
      else if c = CHR ''k'' then [''k'', ''K'', [CHR 0xE2, CHR 0x84, CHR 0xAA]]
      else [[c]])"

fun matches_here :: "string list list \<Rightarrow> string \<Rightarrow> bool" where
  "matches_here [] s = True"
| "matches_here (alts # rest) s =
     list_ex (\<lambda>a. take (length a) s = a \<and> matches_here rest (drop (length a) s)) alts"

fun regexp_MatchString :: "string list list \<Rightarrow> string \<Rightarrow> bool" where
  "regexp_MatchString re [] = matches_here re []"
| "regexp_MatchString re (c # cs) = (matches_here re (c # cs) \<or> regexp_MatchString re cs)"

definition ContainsSkipCI :: "string \<Rightarrow> bool" where
  "ContainsSkipCI s =
     (regexp_MatchString (map foldings ''[ci skip]'') s \<or>
      regexp_MatchString (map foldings ''[skip ci]'') s)"

text \<open>
  \<open>filepath.Match(pattern, name)\<close> is a parameter \<open>Match\<close> of the functions that call it: it
  answers whether the name matches, or with an error for a malformed pattern.
\<close>

type_synonym matcher = "string \<Rightarrow> string \<Rightarrow> error + bool"

fun FilterIgnorePath_loop :: "matcher \<Rightarrow> string list \<Rightarrow> string \<Rightarrow> string list \<Rightarrow> error + string list" where
  "FilterIgnorePath_loop Match [] pattern out = Inr out"
| "FilterIgnorePath_loop Match (file # files) pattern out =
     (case Match pattern file of
        Inl err \<Rightarrow> Inl err
      | Inr match \<Rightarrow>
          FilterIgnorePath_loop Match files pattern (if \<not> match then out @ [file] else out))"

definition FilterIgnorePath :: "matcher \<Rightarrow> string list \<Rightarrow> string \<Rightarrow> error + string list" where
  "FilterIgnorePath Match files pattern = FilterIgnorePath_loop Match files pattern []"

fun FilterPath_loop :: "matcher \<Rightarrow> string list \<Rightarrow> string \<Rightarrow> string list \<Rightarrow> error + string list" where
  "FilterPath_loop Match [] pattern out = Inr out"
| "FilterPath_loop Match (file # files) pattern out =
     (case Match pattern file of
        Inl err \<Rightarrow> Inl err
      | Inr match \<Rightarrow>
          FilterPath_loop Match files pattern (if match then out @ [file] else out))"

definition FilterPath :: "matcher \<Rightarrow> string list \<Rightarrow> string \<Rightarrow> error + string list" where
  "FilterPath Match files pattern = FilterPath_loop Match files pattern []"

subsection \<open>The orders of \<open>Pulls\<close> and \<open>CheckResponse\<close>\<close>

text \<open>
  \<open>Less(i, j)\<close> of \<open>Pulls\<close> is \<open>r[j].Number > r[i].Number\<close>, and of \<open>CheckResponse\<close> it is
  \<open>r[j].CommittedDate.After(r[i].CommittedDate)\<close>; here on the two elements.
\<close>

definition Pulls_Less :: "PullRequest \<Rightarrow> PullRequest \<Rightarrow> bool" where
  "Pulls_Less ri rj = (sint (Number rj) > sint (Number ri))"

definition CheckResponse_Less :: "Version \<Rightarrow> Version \<Rightarrow> bool" where
  "CheckResponse_Less ri rj = After (Version.CommittedDate rj) (Version.CommittedDate ri)"

subsection \<open>\<open>Check\<close>\<close>

text \<open>The loop over \<open>Source.Paths\<close>, collecting the files that match some pattern.\<close>

fun Paths_loop :: "matcher \<Rightarrow> string list \<Rightarrow> string list \<Rightarrow> string list \<Rightarrow> failure + string list" where
  "Paths_loop Match files [] wanted = Inr wanted"
| "Paths_loop Match files (pattern # patterns) wanted =
     (case FilterPath Match files pattern of
        Inl err \<Rightarrow> Inl (Returned (Errorf ''path match failed: '' err))
      | Inr w \<Rightarrow> Paths_loop Match files patterns (wanted @ w))"

text \<open>The loop over \<open>Source.IgnorePaths\<close>, each pattern removing files from those left.\<close>

fun IgnorePaths_loop :: "matcher \<Rightarrow> string list \<Rightarrow> string list \<Rightarrow> failure + string list" where
  "IgnorePaths_loop Match [] wanted = Inr wanted"
| "IgnorePaths_loop Match (pattern # patterns) wanted =
     (case FilterIgnorePath Match wanted pattern of
        Inl err \<Rightarrow> Inl (Returned (Errorf ''ignore path match failed: '' err))
      | Inr wanted' \<Rightarrow> IgnorePaths_loop Match patterns wanted')"

text \<open>
  The first part of the body of the loop over the pull requests, up to the classification:
  \<open>Inr True\<close> when the pull request is skipped (\<open>continue\<close>), \<open>Inr False\<close> when it goes on
  to be classified, \<open>Inl\<close> when \<open>Check\<close> returns an error there.
\<close>

definition Check_skips :: "matcher \<Rightarrow> CheckRequest \<Rightarrow> Github \<Rightarrow> bool \<Rightarrow> PullRequest \<Rightarrow> failure + bool" where
  "Check_skips Match request manager disableSkipCI p =
     (if \<not> disableSkipCI \<and> ContainsSkipCI (Title p) then Inr True
      else if \<not> disableSkipCI \<and> ContainsSkipCI (Message (Tip p)) then Inr True
      else
        case (if Paths (Source request) \<noteq> [] \<or> IgnorePaths (Source request) \<noteq> []
              then ListModifiedFiles manager (Number p) else Inr []) of
          Inl err \<Rightarrow> Inl (Returned (Errorf ''failed to list modified files: '' err))
        | Inr files \<Rightarrow>
            (case (if Paths (Source request) \<noteq> []
                   then map_sum id (\<lambda>wanted. wanted = [])
                          (Paths_loop Match files (Paths (Source request)) [])
                   else Inr False) of
               Inl f \<Rightarrow> Inl f
             | Inr True \<Rightarrow> Inr True
             | Inr False \<Rightarrow>
                 (if IgnorePaths (Source request) \<noteq> []
                  then map_sum id (\<lambda>wanted. wanted = [])
                         (IgnorePaths_loop Match (IgnorePaths (Source request)) files)
                  else Inr False)))"

text \<open>
  The loop over the pull requests; the state is the store and the two slices
  \<open>newPullsToReturn\<close> and \<open>alreadySeenPullsToHide\<close>. A panic of \<open>AboveTheFold\<close> ends it.
\<close>

fun Check_loop ::
  "growslice \<Rightarrow> matcher \<Rightarrow> CheckRequest \<Rightarrow> Github \<Rightarrow> bool \<Rightarrow> PullRequest list \<Rightarrow>
   PullRequest store \<times> slice \<times> slice \<Rightarrow> failure + PullRequest store \<times> slice \<times> slice" where
  "Check_loop grow Match request manager disableSkipCI [] st = Inr st"
| "Check_loop grow Match request manager disableSkipCI (p # pulls)
     (\<sigma>, newPullsToReturn, alreadySeenPullsToHide) =
     (case Check_skips Match request manager disableSkipCI p of
        Inl f \<Rightarrow> Inl f
      | Inr True \<Rightarrow>
          Check_loop grow Match request manager disableSkipCI pulls
            (\<sigma>, newPullsToReturn, alreadySeenPullsToHide)
      | Inr False \<Rightarrow>
          (case AboveTheFold (GetVersionStringFromPullRequest p) (AlreadySeen (Version request)) of
             Inl err \<Rightarrow> Inl (Panicked err)
           | Inr True \<Rightarrow>
               (case append_slice grow \<sigma> newPullsToReturn [p] of
                  (\<sigma>', newPullsToReturn') \<Rightarrow>
                    Check_loop grow Match request manager disableSkipCI pulls
                      (\<sigma>', newPullsToReturn', alreadySeenPullsToHide))
           | Inr False \<Rightarrow>
               (case append_slice grow \<sigma> alreadySeenPullsToHide [p] of
                  (\<sigma>', alreadySeenPullsToHide') \<Rightarrow>
                    Check_loop grow Match request manager disableSkipCI pulls
                      (\<sigma>', newPullsToReturn, alreadySeenPullsToHide'))))"

text \<open>
  What \<open>Check\<close> does after the loop. \<open>combinedVersions\<close> is
  \<open>append(newPullsToReturn, alreadySeenPullsToHide...)\<close> and is sorted in place; the ledger
  is generated from it; then \<open>newPullsToReturn\<close> is read, from the store as the sort left
  it, for the new versions; these are sorted, and the two rules for a check without news
  and for a first check apply.
\<close>

definition Check_respond ::
  "growslice \<Rightarrow> Version \<Rightarrow> PullRequest store \<Rightarrow> slice \<Rightarrow> slice \<Rightarrow> Version list" where
  "Check_respond grow previous \<sigma> newPullsToReturn alreadySeenPullsToHide =
     (let (\<sigma>1, combinedVersions) =
            append_slice grow \<sigma> newPullsToReturn (elems \<sigma> alreadySeenPullsToHide);
          \<sigma>2 = sort_Sort_in_place Pulls_Less \<sigma>1 combinedVersions;
          versionsJustSeen = GenerateVersion (elems \<sigma>2 combinedVersions);
          response = map (\<lambda>p. NewVersion p versionsJustSeen) (elems \<sigma>2 newPullsToReturn);
          response = sort_Sort CheckResponse_Less response;
          response = (if length response = 0 \<and> AlreadySeen previous \<noteq> ''''
                      then response @ [previous] else response);
          response = (if length response \<noteq> 0 \<and> AlreadySeen previous = ''''
                      then [response ! (length response - 1)] else response)
      in response)"

text \<open>
  \<open>Check\<close>, with the two parts of its environment that are no code of the resource:
  \<open>grow\<close>, the runtime's rule for the capacity of a slice that \<open>append\<close> reallocates, and
  \<open>Match\<close>, which is \<open>filepath.Match\<close>. It ends with the response, with a returned error, or
  by a panic.
\<close>

definition Check :: "growslice \<Rightarrow> matcher \<Rightarrow> CheckRequest \<Rightarrow> Github \<Rightarrow> failure + Version list" where
  "Check grow Match request manager =
     (case ListOpenPullRequests manager of
        Inl err \<Rightarrow> Inl (Returned (Errorf ''failed to get last commits: '' err))
      | Inr pulls \<Rightarrow>
          (case (if DisableCISkip (Source request) \<noteq> ''''
                 then ParseBool (DisableCISkip (Source request)) else Inr False) of
             Inl err \<Rightarrow> Inl (Returned (Errorf ''failed to parse disable_ci_skip: '' err))
           | Inr disableSkipCI \<Rightarrow>
               (case Check_loop grow Match request manager disableSkipCI pulls
                       (no_arrays, nil_slice, nil_slice) of
                  Inl f \<Rightarrow> Inl f
                | Inr (\<sigma>, newPullsToReturn, alreadySeenPullsToHide) \<Rightarrow>
                    Inr (Check_respond grow (Version request) \<sigma>
                           newPullsToReturn alreadySeenPullsToHide))))"

section \<open>Notions used to state the properties\<close>

text \<open>
  Decoding a ledger the way \<open>AboveTheFold\<close> does: split it at the commas and decode each
  entry.
\<close>

definition decode_ledger :: "string \<Rightarrow> (error + AlreadySeenVersion) list" where
  "decode_ledger ledger = map ExtractVersionFromVersionString (strings_Split ledger CHR '','')"

text \<open>The entry of a record in a ledger: its number in decimal, and its tip's time to the second.\<close>

definition ledger_entry :: "PullRequest \<Rightarrow> AlreadySeenVersion" where
  "ledger_entry p =
     \<lparr>AlreadySeenVersion.PR = Itoa (Number p),
      committedDate = time_Unix (Time_Unix (CommitObject.CommittedDate (Tip p)))\<rparr>"

text \<open>
  A ledger on which \<open>AboveTheFold\<close> does not panic: it has no colon at all, or each of its
  entries decodes.
\<close>

definition usable_ledger :: "string \<Rightarrow> bool" where
  "usable_ledger ledger =
     (\<not> strings_Contains ledger '':'' \<or> list_all (\<lambda>r. \<not> isl r) (decode_ledger ledger))"

text \<open>
  A record that the ledger tracks and that has not advanced: each entry of the ledger
  decodes, some entry has the number of the record, and the tip of the record is not after
  the time of any such entry.
\<close>

definition tracked_unchanged :: "string \<Rightarrow> PullRequest \<Rightarrow> bool" where
  "tracked_unchanged ledger p =
     (list_all (\<lambda>r. \<not> isl r) (decode_ledger ledger) \<and>
      list_ex (\<lambda>r. AlreadySeenVersion.PR (projr r) = Itoa (Number p)) (decode_ledger ledger) \<and>
      list_all (\<lambda>r. AlreadySeenVersion.PR (projr r) = Itoa (Number p) \<longrightarrow>
                  \<not> After (committedDate (ledger_entry p)) (committedDate (projr r)))
        (decode_ledger ledger))"

text \<open>
  The snapshot of records that \<open>Check\<close> classifies, when no collaborator fails: the open
  pull requests that the skip markers and the path filters let through, in the order of the
  listing.
\<close>

definition snapshot :: "matcher \<Rightarrow> CheckRequest \<Rightarrow> Github \<Rightarrow> PullRequest list option" where
  "snapshot Match request manager =
     (case ListOpenPullRequests manager of
        Inl err \<Rightarrow> None
      | Inr pulls \<Rightarrow>
          (case (if DisableCISkip (Source request) \<noteq> ''''
                 then ParseBool (DisableCISkip (Source request)) else Inr False) of
             Inl err \<Rightarrow> None
           | Inr disableSkipCI \<Rightarrow>
               if list_all (\<lambda>p. \<not> isl (Check_skips Match request manager disableSkipCI p)) pulls
               then Some (filter (\<lambda>p. Check_skips Match request manager disableSkipCI p = Inr False) pulls)
               else None))"

text \<open>The loop of \<open>Check\<close> on a snapshot that is filtered already: the classification alone.\<close>

fun classify ::
  "growslice \<Rightarrow> string \<Rightarrow> PullRequest list \<Rightarrow> PullRequest store \<times> slice \<times> slice \<Rightarrow>
   failure + PullRequest store \<times> slice \<times> slice" where
  "classify grow ledger [] st = Inr st"
| "classify grow ledger (p # records) (\<sigma>, newPullsToReturn, alreadySeenPullsToHide) =
     (case AboveTheFold (GetVersionStringFromPullRequest p) ledger of
        Inl err \<Rightarrow> Inl (Panicked err)
      | Inr True \<Rightarrow>
          (case append_slice grow \<sigma> newPullsToReturn [p] of
             (\<sigma>', newPullsToReturn') \<Rightarrow>
               classify grow ledger records (\<sigma>', newPullsToReturn', alreadySeenPullsToHide))
      | Inr False \<Rightarrow>
          (case append_slice grow \<sigma> alreadySeenPullsToHide [p] of
             (\<sigma>', alreadySeenPullsToHide') \<Rightarrow>
               classify grow ledger records (\<sigma>', newPullsToReturn, alreadySeenPullsToHide')))"

text \<open>
  The last steps of \<open>Check\<close>, from the ledger and the records read for the new versions:
  the versions in order, and the two rules.
\<close>

definition response_of :: "Version \<Rightarrow> string \<Rightarrow> PullRequest list \<Rightarrow> Version list" where
  "response_of previous versionsJustSeen news =
     (let response = sort_Sort CheckResponse_Less (map (\<lambda>p. NewVersion p versionsJustSeen) news);
          response = (if length response = 0 \<and> AlreadySeen previous \<noteq> ''''
                      then response @ [previous] else response);
          response = (if length response \<noteq> 0 \<and> AlreadySeen previous = ''''
                      then [response ! (length response - 1)] else response)
      in response)"

text \<open>
  A slice in good order in a store: its length is within its capacity and within the cells
  of its array, and its array is allocated. Two slices are apart when they have different
  arrays, or no capacity at all.
\<close>

definition wf_slice :: "'a store \<Rightarrow> slice \<Rightarrow> bool" where
  "wf_slice \<sigma> s = (len s \<le> cap s \<and> len s \<le> length (arrays \<sigma> (array s)) \<and> array s < fresh \<sigma>)"

definition apart :: "slice \<Rightarrow> slice \<Rightarrow> bool" where
  "apart s t = (array s \<noteq> array t \<or> cap s = 0 \<and> cap t = 0)"

section \<open>Example inputs\<close>

text \<open>
  A pull request with global id \<open>gid\<close>, number \<open>n\<close> and title \<open>title\<close>, whose tip was
  committed \<open>t\<close> seconds after 1970; a source without path filters; a previous version that
  carries the ledger \<open>ledger\<close>; a Github client that lists the given pull requests; and a
  matcher that takes a pattern literally.
\<close>

definition example_pull :: "string \<Rightarrow> int64 \<Rightarrow> string \<Rightarrow> int64 \<Rightarrow> PullRequest" where
  "example_pull gid n title t =
     \<lparr>PullRequestObject.ID = gid, Number = n, Title = title, URL = '''', BaseRefName = ''master'',
      HeadRefName = ''feature'', Repository_URL = '''',
      Tip = \<lparr>CommitObject.ID = ''commit-'' @ gid, OID = '''', CommitObject.CommittedDate = time_Unix t,
             Message = ''work'', Author_User_Login = ''dev''\<rparr>\<rparr>"

definition example_source :: Source where
  "example_source =
     \<lparr>Repository = ''itsdalmo/test-repository'', AccessToken = ''oauthtoken'', V3Endpoint = '''',
      V4Endpoint = '''', Paths = [], IgnorePaths = [], DisableCISkip = ''''\<rparr>"

definition example_previous :: "string \<Rightarrow> Version" where
  "example_previous ledger =
     \<lparr>Version.PR = ''P2'', Commit = ''commit-P2'', Version.CommittedDate = time_Unix 200,
      AlreadySeen = ledger\<rparr>"

definition example_request :: "string \<Rightarrow> CheckRequest" where
  "example_request ledger = \<lparr>Source = example_source, Version = example_previous ledger\<rparr>"

definition example_manager :: "PullRequest list \<Rightarrow> Github" where
  "example_manager pulls = \<lparr>ListOpenPullRequests = Inr pulls, ListModifiedFiles = (\<lambda>n. Inr [])\<rparr>"

definition literal_Match :: matcher where
  "literal_Match pattern name = Inr (pattern = name)"

definition P1 :: PullRequest where
  "P1 = example_pull ''P1'' 1 ''first'' 100"

definition P2 :: PullRequest where
  "P2 = example_pull ''P2'' 2 ''second'' 200"

definition P2_advanced :: PullRequest where
  "P2_advanced = example_pull ''P2'' 2 ''second'' 300"

definition P3_skipped :: PullRequest where
  "P3_skipped = example_pull ''P3'' 3 ''third [ci skip]'' 400"

definition P5 :: PullRequest where
  "P5 = example_pull ''P5'' 5 ''fifth'' 500"

definition P6 :: PullRequest where
  "P6 = example_pull ''P6'' 6 ''sixth'' 600"

definition P7 :: PullRequest where
  "P7 = example_pull ''P7'' 7 ''seventh'' 700"

section \<open>Strings and numbers\<close>

lemma strings_Contains_single: "strings_Contains s [c] = (c \<in> set s)"
  by (induction s) auto

lemma strings_Split_not_Nil: "strings_Split s sep \<noteq> []"
  by (induction s) (auto split: list.splits)

lemma strings_Split_no_sep: "sep \<notin> set s \<Longrightarrow> strings_Split s sep = [s]"
  by (induction s) auto

lemma strings_Split_append:
  "sep \<notin> set a \<Longrightarrow> strings_Split (a @ sep # b) sep = a # strings_Split b sep"
  by (induction a) auto

lemma length_strings_Split: "(length (strings_Split s sep) \<le> 1) = (sep \<notin> set s)"
proof (induction s)
  case Nil
  then show ?case by simp
next
  case (Cons c cs)
  then show ?case
    using strings_Split_not_Nil [of cs sep]
    by (cases "strings_Split cs sep") auto
qed

lemma strings_Split_Join:
  "es \<noteq> [] \<Longrightarrow> \<forall>e\<in>set es. sep \<notin> set e \<Longrightarrow> strings_Split (strings_Join es [sep]) sep = es"
proof (induction es "[sep]" rule: strings_Join.induct)
  case 1
  then show ?case by simp
next
  case (2 e)
  then show ?case by (simp add: strings_Split_no_sep)
next
  case (3 e e' es)
  then show ?case by (simp add: strings_Split_append)
qed

lemma set_strings_Split: "pair \<in> set (strings_Split s sep) \<Longrightarrow> set pair \<subseteq> set s"
proof (induction s arbitrary: pair)
  case Nil
  then show ?case by simp
next
  case (Cons c cs)
  show ?case
  proof (cases "c = sep")
    case True
    then show ?thesis using Cons by auto
  next
    case False
    obtain f fs where sp: "strings_Split cs sep = f # fs"
      using strings_Split_not_Nil [of cs sep] by (cases "strings_Split cs sep") auto
    from Cons.prems False sp have "pair = c # f \<or> pair \<in> set fs" by simp
    then show ?thesis
      using Cons.IH [of f] Cons.IH [of pair] sp by auto
  qed
qed

lemma uint64_bounds: "0 \<le> uint (w :: int64) \<and> uint w < 18446744073709551616"
  using uint_lt2p [of w] by simp

lemma sint64_uint:
  "sint (w :: int64) = (if uint w < 9223372036854775808 then uint w else uint w - 18446744073709551616)"
proof -
  let ?k = "uint w"
  have b: "0 \<le> ?k" "?k < 18446744073709551616" using uint64_bounds [of w] by simp_all
  have d: "?k div 9223372036854775808 = (if ?k < 9223372036854775808 then 0 else 1)"
    using b by (auto simp: div_pos_pos_trivial intro!: int_div_pos_eq [where r = "?k - 9223372036854775808"])
  have bit63: "bit ?k 63 = (\<not> ?k < 9223372036854775808)"
    by (simp add: bit_iff_odd_drop_bit drop_bit_eq_div d)
  have tb: "take_bit 64 ?k = ?k"
    using b by (simp add: take_bit_int_eq_self)
  show ?thesis
    by (simp add: sint_uint signed_take_bit_eq_take_bit_minus tb bit63)
qed

lemma sint_neg_iff: "(sint (i :: int64) < 0) = (9223372036854775808 \<le> i)"
  using uint64_bounds [of i] by (simp add: sint64_uint word_le_def)

lemma neg_magnitude: "sint (i :: int64) < 0 \<Longrightarrow> \<not> 9223372036854775808 < - i"
proof -
  assume "sint i < 0"
  then have "9223372036854775808 \<le> uint i" by (simp add: sint_neg_iff word_le_def)
  moreover have "uint (- i) = (- uint i) mod 18446744073709551616"
    by (simp add: uint_word_ariths)
  ultimately have "uint (- i) \<le> 9223372036854775808"
    using uint64_bounds [of i] by (simp add: zmod_zminus1_eq_if split: if_splits)
  then show ?thesis by (simp add: word_less_def)
qed

lemma maxUint64_top: "\<not> (18446744073709551615 :: int64) < u"
  using uint64_bounds [of u] by (simp add: word_less_def)

lemma is_digit_digit_char: "d < 10 \<Longrightarrow> is_digit (digit_char d)"
  by (simp add: is_digit_def digit_char_def word_less_nat_alt)

lemma digit_val_digit_char: "d < 10 \<Longrightarrow> digit_val (digit_char d) = d"
  by (simp add: digit_val_def digit_char_def word_less_nat_alt)

lemma FormatUint_not_Nil: "FormatUint n \<noteq> []"
  by (subst FormatUint.simps) simp

lemma mod10_less: "(u :: uint64) mod 10 < 10"
  by (simp add: word_less_nat_alt unat_mod)

lemma FormatUint_digits: "c \<in> set (FormatUint n) \<Longrightarrow> is_digit c"
proof (induction n rule: FormatUint.induct)
  case (1 n)
  then show ?case
    by (subst (asm) (2) FormatUint.simps) (auto simp: is_digit_digit_char mod10_less split: if_splits)
qed

lemma hd_FormatUint_digit: "is_digit (hd (FormatUint n))"
  using FormatUint_digits [of "hd (FormatUint n)" n] FormatUint_not_Nil [of n] by simp

lemma ParseUint_loop_append:
  "ParseUint_loop n (xs @ ys) =
     (case ParseUint_loop n xs of Inl e \<Rightarrow> Inl e | Inr m \<Rightarrow> ParseUint_loop m ys)"
  by (induction xs arbitrary: n) (auto simp: Let_def)

lemma div10_small: "\<not> cutoff10 \<le> (u :: uint64) div 10"
proof -
  have "unat u < 18446744073709551616" using unsigned_less [of u, where 'a = nat] by simp
  then have "unat u div 10 < 1844674407370955162" by simp
  then show ?thesis by (simp add: cutoff10_def word_le_nat_alt unat_div)
qed

lemma div10_times: "\<not> (u :: uint64) < u div 10 * 10"
proof -
  have "unat u < 18446744073709551616" using unsigned_less [of u, where 'a = nat] by simp
  then have "unat u div 10 * 10 < 2 ^ 64" by simp
  then have "unat (u div 10 * 10) = unat u div 10 * 10"
    by (simp add: unat_word_ariths unat_div)
  then show ?thesis by (simp add: word_less_nat_alt)
qed

lemma ParseUint_loop_FormatUint: "ParseUint_loop 0 (FormatUint u) = Inr u"
proof (induction u rule: FormatUint.induct)
  case (1 u)
  have top: "\<And>v. \<not> maxUint64 < v"
    unfolding maxUint64_def by (rule maxUint64_top)
  show ?case
  proof (cases "u < 10")
    case True
    then show ?thesis
      by (subst FormatUint.simps)
         (simp add: is_digit_digit_char digit_val_digit_char top cutoff10_def)
  next
    case False
    have ih: "ParseUint_loop 0 (FormatUint (u div 10)) = Inr (u div 10)"
      using 1 [OF False] .
    have recompose: "u div 10 * 10 + u mod 10 = u" by (rule div_mult_mod_eq)
    show ?thesis
      using False
      by (subst FormatUint.simps)
         (simp add: ParseUint_loop_append ih is_digit_digit_char digit_val_digit_char
            mod10_less div10_small div10_times recompose top)
  qed
qed

lemma is_digit_not_sign: "is_digit c \<Longrightarrow> c \<noteq> CHR ''-'' \<and> c \<noteq> CHR ''+'' \<and> c \<noteq> CHR '':'' \<and> c \<noteq> CHR '',''"
  by (auto simp: is_digit_def)

lemma ParseUint_FormatUint: "ParseUint (FormatUint u) = Inr u"
  by (simp add: ParseUint_def FormatUint_not_Nil ParseUint_loop_FormatUint)

lemma ParseInt_FormatInt: "ParseInt (FormatInt i) = Inr i"
proof (cases "sint i < 0")
  case True
  have "\<not> 9223372036854775808 < - i" using True by (rule neg_magnitude)
  then have "ParseInt (CHR ''-'' # FormatUint (- i)) = Inr i"
    by (simp add: ParseInt_def ParseUint_FormatUint)
  then show ?thesis
    using True by (simp add: FormatInt_def)
next
  case False
  have h: "hd (FormatUint i) \<noteq> CHR ''-'' \<and> hd (FormatUint i) \<noteq> CHR ''+''"
    using is_digit_not_sign [OF hd_FormatUint_digit [of i]] by simp
  have "ParseInt (FormatUint i) = Inr i"
    using False h by (simp add: ParseInt_def ParseUint_FormatUint FormatUint_not_Nil sint_neg_iff)
  then show ?thesis
    using False by (simp add: FormatInt_def)
qed

lemma FormatInt_inj: "FormatInt a = FormatInt b \<Longrightarrow> a = b"
  by (metis ParseInt_FormatInt sum.inject(2))

lemma FormatInt_chars: "c \<in> set (FormatInt i) \<Longrightarrow> c \<noteq> CHR '':'' \<and> c \<noteq> CHR '',''"
  using is_digit_not_sign [of c] FormatUint_digits [of c]
  by (auto simp: FormatInt_def split: if_splits)

lemma colon_notin_FormatInt [simp]: "CHR '':'' \<notin> set (FormatInt i)"
  using FormatInt_chars by blast

lemma comma_notin_FormatInt [simp]: "CHR '','' \<notin> set (FormatInt i)"
  using FormatInt_chars by blast

lemma colon_notin_Itoa [simp]: "CHR '':'' \<notin> set (Itoa i)"
  by (simp add: Itoa_def)

lemma comma_notin_Itoa [simp]: "CHR '','' \<notin> set (Itoa i)"
  by (simp add: Itoa_def)

lemma Itoa_inj: "Itoa a = Itoa b \<Longrightarrow> a = b"
  by (simp add: Itoa_def FormatInt_inj)

lemma time_Unix_Time_Unix: "time_Unix (Time_Unix t) = \<lparr>ext = ext t, nsec = 0\<rparr>"
  by (simp add: time_Unix_def Time_Unix_def)

lemma sint_eq_iff: "(sint a = sint b) = (a = (b :: int64))"
  by (auto intro: signed_word_eqI)

lemma After_asym: "After t u \<Longrightarrow> \<not> After u t"
  by (auto simp: After_def)

lemma After_ntrans: "\<not> After t u \<Longrightarrow> \<not> After u v \<Longrightarrow> \<not> After t v"
  by (auto simp: After_def sint_eq_iff)

lemma After_total: "t \<noteq> u \<Longrightarrow> After t u \<or> After (u :: Time) t"
  by (cases t, cases u) (auto simp: After_def sint_eq_iff)

section \<open>Sorting\<close>

lemma mset_insertLeft: "mset (insertLeft lt x ys) = add_mset x (mset ys)"
  by (induction ys) auto

lemma mset_foldl_insertLeft:
  "mset (foldl (\<lambda>front x. insertLeft lt x front) acc xs) = mset acc + mset xs"
  by (induction xs arbitrary: acc) (auto simp: mset_insertLeft)

lemma mset_sort_Sort: "mset (sort_Sort lt xs) = mset xs"
  by (simp add: sort_Sort_def mset_foldl_insertLeft)

lemma set_sort_Sort: "set (sort_Sort lt xs) = set xs"
  using mset_sort_Sort [of lt xs] by (metis set_mset_mset)

lemma length_sort_Sort: "length (sort_Sort lt xs) = length xs"
  using mset_sort_Sort [of lt xs] by (metis size_mset)

lemma sort_Sort_Nil_iff: "(sort_Sort lt xs = []) = (xs = [])"
  using length_sort_Sort [of lt xs] by auto

lemma set_insertLeft: "set (insertLeft lt x ys) = insert x (set ys)"
  using mset_insertLeft [of lt x ys] by (metis set_mset_mset set_mset_add_mset_insert)

lemma sorted_insertLeft:
  assumes asym: "\<And>a b. lt a b \<Longrightarrow> \<not> lt b a"
    and ntrans: "\<And>a b c. \<not> lt a b \<Longrightarrow> \<not> lt b c \<Longrightarrow> \<not> lt a c"
  shows "sorted_wrt (\<lambda>a b. \<not> lt a b) ys \<Longrightarrow> sorted_wrt (\<lambda>a b. \<not> lt a b) (insertLeft lt x ys)"
proof (induction ys)
  case Nil
  then show ?case by simp
next
  case (Cons y ys)
  show ?case
  proof (cases "lt x y")
    case True
    then show ?thesis using Cons asym by (auto simp: set_insertLeft)
  next
    case False
    then show ?thesis using Cons ntrans by auto
  qed
qed

lemma sorted_foldl_insertLeft:
  assumes asym: "\<And>a b. lt a b \<Longrightarrow> \<not> lt b a"
    and ntrans: "\<And>a b c. \<not> lt a b \<Longrightarrow> \<not> lt b c \<Longrightarrow> \<not> lt a c"
  shows "sorted_wrt (\<lambda>a b. \<not> lt a b) acc \<Longrightarrow>
         sorted_wrt (\<lambda>a b. \<not> lt a b) (foldl (\<lambda>front x. insertLeft lt x front) acc xs)"
proof (induction xs arbitrary: acc)
  case Nil
  then show ?case by simp
next
  case (Cons x xs)
  have "sorted_wrt (\<lambda>a b. \<not> lt a b) (insertLeft lt x acc)"
  proof (rule sorted_insertLeft)
    show "\<And>a b. lt a b \<Longrightarrow> \<not> lt b a" by (rule asym)
    show "\<And>a b c. \<not> lt a b \<Longrightarrow> \<not> lt b c \<Longrightarrow> \<not> lt a c" by (rule ntrans)
    show "sorted_wrt (\<lambda>a b. \<not> lt a b) acc" by (rule Cons.prems)
  qed
  then show ?case using Cons.IH by simp
qed

lemma sorted_sort_Sort:
  assumes asym: "\<And>a b. lt a b \<Longrightarrow> \<not> lt b a"
    and ntrans: "\<And>a b c. \<not> lt a b \<Longrightarrow> \<not> lt b c \<Longrightarrow> \<not> lt a c"
  shows "sorted_wrt (\<lambda>a b. \<not> lt b a) (sort_Sort lt xs)"
proof -
  have "sorted_wrt (\<lambda>a b. \<not> lt a b) (foldl (\<lambda>front x. insertLeft lt x front) [] xs)"
  proof (rule sorted_foldl_insertLeft)
    show "\<And>a b. lt a b \<Longrightarrow> \<not> lt b a" by (rule asym)
    show "\<And>a b c. \<not> lt a b \<Longrightarrow> \<not> lt b c \<Longrightarrow> \<not> lt a c" by (rule ntrans)
    show "sorted_wrt (\<lambda>a b. \<not> lt a b) []" by simp
  qed
  then show ?thesis by (simp add: sort_Sort_def sorted_wrt_rev)
qed

lemma sorted_Pulls: "sorted_wrt (\<lambda>a b. \<not> Pulls_Less b a) (sort_Sort Pulls_Less xs)"
  by (rule sorted_sort_Sort) (auto simp: Pulls_Less_def)

lemma sorted_CheckResponse:
  "sorted_wrt (\<lambda>a b. \<not> CheckResponse_Less b a) (sort_Sort CheckResponse_Less xs)"
  by (rule sorted_sort_Sort) (auto simp: CheckResponse_Less_def dest: After_asym After_ntrans)

lemma sorted_wrt_before_last:
  "sorted_wrt P xs \<Longrightarrow> x \<in> set (butlast xs) \<Longrightarrow> P x (last xs)"
proof -
  assume s: "sorted_wrt P xs" and x: "x \<in> set (butlast xs)"
  then have ne: "xs \<noteq> []" by auto
  then have "xs = butlast xs @ [last xs]" by simp
  then have "sorted_wrt P (butlast xs @ [last xs])" using s by simp
  then show ?thesis using x by (simp add: sorted_wrt_append)
qed

lemma last_sorted_versions:
  assumes "vs \<noteq> []"
    and "sorted_wrt (\<lambda>a b. \<not> CheckResponse_Less b a) vs"
    and "v \<in> set vs"
  shows "\<not> After (Version.CommittedDate v) (Version.CommittedDate (last vs))"
proof (cases "v \<in> set (butlast vs)")
  case True
  from sorted_wrt_before_last [OF assms(2) True] show ?thesis
    by (simp add: CheckResponse_Less_def)
next
  case False
  have "vs = butlast vs @ [last vs]" using assms(1) by simp
  then have "set vs = set (butlast vs) \<union> {last vs}"
    by (metis list.simps(15) set_append empty_set)
  with False assms(3) have "v = last vs" by auto
  then show ?thesis by (simp add: After_def)
qed

section \<open>The codec and the classifier\<close>

lemma Split_GetVersionString:
  "strings_Split (GetVersionStringFromPullRequest p) CHR '':'' =
     [Itoa (Number p), FormatInt (Time_Unix (CommitObject.CommittedDate (Tip p)))]"
  by (simp add: GetVersionStringFromPullRequest_def strings_Split_append strings_Split_no_sep)

lemma Extract_GetVersionString:
  "ExtractVersionFromVersionString (GetVersionStringFromPullRequest p) = Inr (ledger_entry p)"
  by (simp add: ExtractVersionFromVersionString_def Split_GetVersionString ParseInt_FormatInt
      ledger_entry_def)

lemma comma_notin_GetVersionString [simp]:
  "CHR '','' \<notin> set (GetVersionStringFromPullRequest p)"
  by (simp add: GetVersionStringFromPullRequest_def)

lemma decode_GenerateVersion:
  "records \<noteq> [] \<Longrightarrow> decode_ledger (GenerateVersion records) = map (\<lambda>p. Inr (ledger_entry p)) records"
proof -
  assume ne: "records \<noteq> []"
  have "strings_Split (strings_Join (map GetVersionStringFromPullRequest records) [CHR '','']) CHR '',''
        = map GetVersionStringFromPullRequest records"
    by (rule strings_Split_Join) (use ne in auto)
  then show ?thesis
    by (simp add: decode_ledger_def GenerateVersion_def Extract_GetVersionString)
qed

lemma GenerateVersion_decodes:
  assumes "mset ordered = mset records" and "records \<noteq> []" and "distinct (map Number records)"
  shows "\<exists>entries. decode_ledger (GenerateVersion ordered) = map Inr entries \<and>
           mset entries = image_mset ledger_entry (mset records) \<and>
           distinct (map AlreadySeenVersion.PR entries)"
proof -
  have ne: "ordered \<noteq> []" using assms(1,2) by auto
  let ?entries = "map ledger_entry ordered"
  have d: "decode_ledger (GenerateVersion ordered) = map Inr ?entries"
    using decode_GenerateVersion [OF ne] by simp
  have m: "mset ?entries = image_mset ledger_entry (mset records)"
    using assms(1) by simp
  have "mset (map Number ordered) = mset (map Number records)" using assms(1) by simp
  then have dn: "distinct (map Number ordered)"
    using assms(3) by (metis mset_eq_imp_distinct_iff)
  have eq: "map AlreadySeenVersion.PR ?entries = map Itoa (map Number ordered)"
    by (simp add: ledger_entry_def)
  have "inj_on Itoa (set (map Number ordered))"
    by (rule inj_onI) (rule Itoa_inj)
  with dn have "distinct (map Itoa (map Number ordered))"
    by (subst distinct_map) blast
  then have "distinct (map AlreadySeenVersion.PR ?entries)" by (simp only: eq)
  with d m show ?thesis by blast
qed

lemma Extract_Inr_colon:
  "ExtractVersionFromVersionString pair = Inr e \<Longrightarrow> CHR '':'' \<in> set pair"
  using length_strings_Split [of pair "CHR '':''"]
  by (auto simp: ExtractVersionFromVersionString_def Let_def split: if_splits)

lemma Extract_no_colon:
  "CHR '':'' \<notin> set pair \<Longrightarrow> ExtractVersionFromVersionString pair = Inl (IndexOutOfRange 1 1)"
  by (simp add: ExtractVersionFromVersionString_def strings_Split_no_sep)

lemma Extract_ParseInt_fails:
  assumes "CHR '':'' \<in> set pair"
    and "isl (ParseInt (strings_Split pair CHR '':'' ! 1))"
  shows "isl (ExtractVersionFromVersionString pair)"
proof -
  have "\<not> length (strings_Split pair CHR '':'') \<le> 1"
    using length_strings_Split [of pair "CHR '':''"] assms(1) by blast
  then show ?thesis
    using assms(2) by (auto simp: ExtractVersionFromVersionString_def Let_def split: sum.splits)
qed

lemma decodes_Contains:
  assumes "decode_ledger ledger = map Inr es"
  shows "strings_Contains ledger '':''"
proof -
  obtain f fs where sp: "strings_Split ledger CHR '','' = f # fs"
    using strings_Split_not_Nil [of ledger "CHR '',''"] by (cases "strings_Split ledger CHR '',''") auto
  with assms obtain e where "ExtractVersionFromVersionString f = Inr e"
    by (cases es) (auto simp: decode_ledger_def)
  then have "CHR '':'' \<in> set f" by (rule Extract_Inr_colon)
  moreover have "set f \<subseteq> set ledger" by (rule set_strings_Split [of f ledger "CHR '',''"]) (simp add: sp)
  ultimately show ?thesis by (auto simp: strings_Contains_single)
qed

lemma all_Inr_map: "list_all (\<lambda>r. \<not> isl r) rs \<Longrightarrow> rs = map Inr (map projr rs)"
  by (induction rs) auto

lemma AboveTheFold_loop_decoded:
  "map ExtractVersionFromVersionString pairs = map Inr es \<Longrightarrow>
   AboveTheFold_loop cur pairs (a, f) =
     Inr (a \<or> (\<exists>e\<in>set es. AlreadySeenVersion.PR e = AlreadySeenVersion.PR cur \<and>
                   After (committedDate cur) (committedDate e)),
          f \<or> (\<exists>e\<in>set es. AlreadySeenVersion.PR e = AlreadySeenVersion.PR cur))"
proof (induction pairs arbitrary: es a f)
  case Nil
  then show ?case by simp
next
  case (Cons pair pairs)
  then obtain e es' where es: "es = e # es'" "ExtractVersionFromVersionString pair = Inr e"
    "map ExtractVersionFromVersionString pairs = map Inr es'"
    by (cases es) auto
  show ?case
    using Cons.IH [OF es(3)] es(1,2) by auto
qed

lemma AboveTheFold_loop_fails:
  "\<exists>pair\<in>set pairs. isl (ExtractVersionFromVersionString pair) \<Longrightarrow>
   \<exists>err. AboveTheFold_loop cur pairs st = Inl err \<and>
         (\<exists>pair\<in>set pairs. ExtractVersionFromVersionString pair = Inl err)"
proof (induction pairs arbitrary: st)
  case Nil
  then show ?case by simp
next
  case (Cons pair pairs)
  obtain a f where st: "st = (a, f)" by (cases st)
  show ?case
  proof (cases "ExtractVersionFromVersionString pair")
    case (Inl err)
    then show ?thesis by (auto simp: st)
  next
    case (Inr e)
    with Cons.prems have "\<exists>pair\<in>set pairs. isl (ExtractVersionFromVersionString pair)" by auto
    from Cons.IH [OF this] show ?thesis using Inr by (auto simp: st)
  qed
qed

lemma AboveTheFold_no_colon: "\<not> strings_Contains alreadySeen '':'' \<Longrightarrow> AboveTheFold cur alreadySeen = Inr True"
  by (simp add: AboveTheFold_def)

lemma AboveTheFold_decoded:
  assumes "decode_ledger ledger = map Inr es"
  shows "AboveTheFold (GetVersionStringFromPullRequest p) ledger =
     Inr ((\<forall>e\<in>set es. AlreadySeenVersion.PR e \<noteq> Itoa (Number p)) \<or>
          (\<exists>e\<in>set es. AlreadySeenVersion.PR e = Itoa (Number p) \<and>
                After (committedDate (ledger_entry p)) (committedDate e)))"
proof -
  have c: "strings_Contains ledger '':''" using assms by (rule decodes_Contains)
  have m: "map ExtractVersionFromVersionString (strings_Split ledger CHR '','') = map Inr es"
    using assms by (simp add: decode_ledger_def)
  have pr: "AlreadySeenVersion.PR (ledger_entry p) = Itoa (Number p)"
    by (simp add: ledger_entry_def)
  show ?thesis
    unfolding AboveTheFold_def
    by (simp add: c Extract_GetVersionString AboveTheFold_loop_decoded [OF m] pr) blast
qed

lemma AboveTheFold_fails:
  assumes "strings_Contains ledger '':''"
    and "\<exists>pair\<in>set (strings_Split ledger CHR '',''). isl (ExtractVersionFromVersionString pair)"
  shows "\<exists>err. AboveTheFold cur ledger = Inl err"
proof (cases "ExtractVersionFromVersionString cur")
  case (Inl err)
  then show ?thesis using assms(1) by (simp add: AboveTheFold_def)
next
  case (Inr pullRequest)
  from AboveTheFold_loop_fails [OF assms(2), of pullRequest "(False, False)"]
  obtain err where "AboveTheFold_loop pullRequest (strings_Split ledger CHR '','') (False, False) = Inl err"
    by blast
  then show ?thesis using assms(1) Inr by (simp add: AboveTheFold_def)
qed

lemma AboveTheFold_fails_record:
  assumes "strings_Contains ledger '':''"
    and "\<exists>pair\<in>set (strings_Split ledger CHR '',''). isl (ExtractVersionFromVersionString pair)"
  shows "\<exists>err. AboveTheFold (GetVersionStringFromPullRequest p) ledger = Inl err \<and>
           (\<exists>pair\<in>set (strings_Split ledger CHR '',''). ExtractVersionFromVersionString pair = Inl err)"
proof -
  from AboveTheFold_loop_fails [OF assms(2), of "ledger_entry p" "(False, False)"]
  obtain err where "AboveTheFold_loop (ledger_entry p) (strings_Split ledger CHR '','') (False, False) = Inl err"
    and "\<exists>pair\<in>set (strings_Split ledger CHR '',''). ExtractVersionFromVersionString pair = Inl err"
    by blast
  then show ?thesis using assms(1) by (simp add: AboveTheFold_def Extract_GetVersionString)
qed

lemma usable_no_panic:
  assumes "usable_ledger ledger"
  shows "\<not> isl (AboveTheFold (GetVersionStringFromPullRequest p) ledger)"
proof (cases "strings_Contains ledger '':''")
  case False
  then show ?thesis by (simp add: AboveTheFold_no_colon)
next
  case True
  with assms have "list_all (\<lambda>r. \<not> isl r) (decode_ledger ledger)" by (simp add: usable_ledger_def)
  then have "decode_ledger ledger = map Inr (map projr (decode_ledger ledger))" by (rule all_Inr_map)
  from AboveTheFold_decoded [OF this, of p] show ?thesis by simp
qed

lemma tracked_unchanged_below:
  assumes "tracked_unchanged ledger p"
  shows "AboveTheFold (GetVersionStringFromPullRequest p) ledger = Inr False"
proof -
  let ?rs = "decode_ledger ledger"
  let ?es = "map projr ?rs"
  from assms have ok: "list_all (\<lambda>r. \<not> isl r) ?rs"
    and ex: "list_ex (\<lambda>r. AlreadySeenVersion.PR (projr r) = Itoa (Number p)) ?rs"
    and al: "list_all (\<lambda>r. AlreadySeenVersion.PR (projr r) = Itoa (Number p) \<longrightarrow>
                  \<not> After (committedDate (ledger_entry p)) (committedDate (projr r))) ?rs"
    by (simp_all add: tracked_unchanged_def)
  have d: "?rs = map Inr ?es" using ok by (rule all_Inr_map)
  have found: "\<exists>e\<in>set ?es. AlreadySeenVersion.PR e = Itoa (Number p)"
    using ex by (auto simp: list_ex_iff)
  have older: "\<forall>e\<in>set ?es. AlreadySeenVersion.PR e = Itoa (Number p) \<longrightarrow>
                 \<not> After (committedDate (ledger_entry p)) (committedDate e)"
    using al by (auto simp: list_all_iff)
  show ?thesis
    using AboveTheFold_decoded [OF d, of p] found older by auto
qed

lemma equal_timestamp_classified_below:
  assumes "decode_ledger ledger = map Inr entries"
    and "distinct (map AlreadySeenVersion.PR entries)"
    and "e \<in> set entries"
    and "AlreadySeenVersion.PR e = Itoa (Number p)"
    and "committedDate e = time_Unix (Time_Unix (CommitObject.CommittedDate (Tip p)))"
  shows "AboveTheFold (GetVersionStringFromPullRequest p) ledger = Inr False"
proof -
  have only: "\<forall>e'\<in>set entries. AlreadySeenVersion.PR e' = Itoa (Number p) \<longrightarrow> e' = e"
  proof (intro ballI impI)
    fix e'
    assume e': "e' \<in> set entries" "AlreadySeenVersion.PR e' = Itoa (Number p)"
    have inj: "inj_on AlreadySeenVersion.PR (set entries)"
      using assms(2) by (simp add: distinct_map)
    have "AlreadySeenVersion.PR e' = AlreadySeenVersion.PR e" using e'(2) assms(4) by simp
    then show "e' = e" by (rule inj_onD [OF inj _ e'(1) assms(3)])
  qed
  have same: "\<not> After (committedDate (ledger_entry p)) (committedDate e)"
    by (simp add: assms(5) ledger_entry_def After_def)
  have tracked: "\<not> (\<forall>e'\<in>set entries. AlreadySeenVersion.PR e' \<noteq> Itoa (Number p))"
    using assms(3,4) by blast
  have not_after: "\<not> (\<exists>e'\<in>set entries. AlreadySeenVersion.PR e' = Itoa (Number p) \<and>
                After (committedDate (ledger_entry p)) (committedDate e'))"
    using only same by blast
  show ?thesis
    unfolding AboveTheFold_decoded [OF assms(1), of p] using tracked not_after by simp
qed

section \<open>Slices in the store\<close>

lemma length_elems: "wf_slice \<sigma> s \<Longrightarrow> length (elems \<sigma> s) = len s"
  by (simp add: wf_slice_def elems_def)

lemma wf_nil_slice: "wf_slice no_arrays nil_slice"
  by (simp add: wf_slice_def no_arrays_def nil_slice_def)

lemma apart_nil_slice: "apart nil_slice nil_slice"
  by (simp add: apart_def nil_slice_def)

lemma elems_nil_slice: "elems no_arrays nil_slice = []"
  by (simp add: elems_def nil_slice_def)

lemma apart_sym: "apart s t \<Longrightarrow> apart t s"
  by (auto simp: apart_def)

lemma append_slice_nothing: "len s \<le> cap s \<Longrightarrow> append_slice grow \<sigma> s [] = (\<sigma>, s)"
  by (simp add: append_slice_def)

lemma append_slice_apart:
  assumes wf: "wf_slice \<sigma> s" "wf_slice \<sigma> t"
    and ap: "apart s t"
    and ne: "xs \<noteq> []"
    and app: "append_slice grow \<sigma> s xs = (\<sigma>', s')"
  shows "wf_slice \<sigma>' s' \<and> wf_slice \<sigma>' t \<and> apart s' t \<and>
         elems \<sigma>' s' = elems \<sigma> s @ xs \<and> elems \<sigma>' t = elems \<sigma> t"
proof (cases "len s + length xs \<le> cap s")
  case True
  then have pos: "0 < cap s" using ne by (cases xs) auto
  then have diff: "array s \<noteq> array t" using ap by (auto simp: apart_def)
  from True app have s': "s' = s\<lparr>len := len s + length xs\<rparr>"
    and \<sigma>': "\<sigma>' = \<sigma>\<lparr>arrays := (arrays \<sigma>)
                (array s := take (len s) (arrays \<sigma> (array s)) @ xs @
                   drop (len s + length xs) (arrays \<sigma> (array s)))\<rparr>"
    by (auto simp: append_slice_def Let_def)
  have l: "len s \<le> length (arrays \<sigma> (array s))" using wf(1) by (simp add: wf_slice_def)
  show ?thesis
    using True wf l diff
    by (auto simp: s' \<sigma>' wf_slice_def apart_def elems_def min_def)
next
  case False
  from False app have s': "s' = \<lparr>array = fresh \<sigma>, len = len s + length xs,
                               cap = max (len s + length xs) (grow (cap s) (len s + length xs))\<rparr>"
    and \<sigma>': "\<sigma>' = \<sigma>\<lparr>arrays := (arrays \<sigma>)(fresh \<sigma> := elems \<sigma> s @ xs), fresh := fresh \<sigma> + 1\<rparr>"
    by (auto simp: append_slice_def Let_def)
  have l: "length (elems \<sigma> s) = len s" using wf(1) by (rule length_elems)
  have t: "array t \<noteq> fresh \<sigma>" using wf(2) by (simp add: wf_slice_def)
  show ?thesis
    using wf l t
    by (auto simp: s' \<sigma>' wf_slice_def apart_def elems_def)
qed

section \<open>The loop of \<open>Check\<close>\<close>

lemma Check_loop_classify:
  "\<forall>p\<in>set pulls. \<not> isl (Check_skips Match request manager d p) \<Longrightarrow>
   Check_loop grow Match request manager d pulls st =
     classify grow (AlreadySeen (Version request))
       (filter (\<lambda>p. Check_skips Match request manager d p = Inr False) pulls) st"
proof (induction pulls arbitrary: st)
  case Nil
  then show ?case by simp
next
  case (Cons p pulls)
  obtain \<sigma> new seen where st: "st = (\<sigma>, new, seen)" by (cases st)
  from Cons.prems obtain b where b: "Check_skips Match request manager d p = Inr b"
    by (cases "Check_skips Match request manager d p") auto
  have ih: "\<And>st. Check_loop grow Match request manager d pulls st =
     classify grow (AlreadySeen (Version request))
       (filter (\<lambda>p. Check_skips Match request manager d p = Inr False) pulls) st"
    using Cons.IH Cons.prems by simp
  show ?case
    by (cases b) (simp_all add: st b ih split: sum.splits bool.splits prod.splits)
qed

lemma Check_snapshot:
  assumes "snapshot Match request manager = Some records"
  shows "Check grow Match request manager =
     (case classify grow (AlreadySeen (Version request)) records (no_arrays, nil_slice, nil_slice) of
        Inl f \<Rightarrow> Inl f
      | Inr (\<sigma>, new, seen) \<Rightarrow> Inr (Check_respond grow (Version request) \<sigma> new seen))"
proof -
  from assms obtain pulls where pulls: "ListOpenPullRequests manager = Inr pulls"
    by (cases "ListOpenPullRequests manager") (auto simp: snapshot_def)
  from assms pulls obtain d where
    d: "(if DisableCISkip (Source request) \<noteq> ''''
         then ParseBool (DisableCISkip (Source request)) else Inr False) = Inr d"
    by (cases "(if DisableCISkip (Source request) \<noteq> ''''
         then ParseBool (DisableCISkip (Source request)) else Inr False)") (auto simp: snapshot_def)
  from assms have ok: "\<forall>p\<in>set pulls. \<not> isl (Check_skips Match request manager d p)"
    and recs: "records = filter (\<lambda>p. Check_skips Match request manager d p = Inr False) pulls"
    unfolding snapshot_def pulls sum.case d
    by (auto simp: list_all_iff split: if_splits)
  show ?thesis
    unfolding Check_def pulls sum.case d
    by (simp add: Check_loop_classify [OF ok] recs)
qed

lemma classify_Inr:
  assumes "\<forall>p\<in>set records. \<not> isl (AboveTheFold (GetVersionStringFromPullRequest p) ledger)"
    and "wf_slice \<sigma> new" and "wf_slice \<sigma> seen" and "apart new seen"
  shows "\<exists>\<sigma>' new' seen'.
     classify grow ledger records (\<sigma>, new, seen) = Inr (\<sigma>', new', seen') \<and>
     wf_slice \<sigma>' new' \<and> wf_slice \<sigma>' seen' \<and> apart new' seen' \<and>
     elems \<sigma>' new' = elems \<sigma> new @
       filter (\<lambda>p. AboveTheFold (GetVersionStringFromPullRequest p) ledger = Inr True) records \<and>
     elems \<sigma>' seen' = elems \<sigma> seen @
       filter (\<lambda>p. AboveTheFold (GetVersionStringFromPullRequest p) ledger = Inr False) records"
  using assms
proof (induction records arbitrary: \<sigma> new seen)
  case Nil
  then show ?case by simp
next
  case (Cons p records)
  from Cons.prems(1) obtain b where b: "AboveTheFold (GetVersionStringFromPullRequest p) ledger = Inr b"
    by (cases "AboveTheFold (GetVersionStringFromPullRequest p) ledger") auto
  have rest: "\<forall>p\<in>set records. \<not> isl (AboveTheFold (GetVersionStringFromPullRequest p) ledger)"
    using Cons.prems(1) by simp
  show ?case
  proof (cases b)
    case True
    obtain \<sigma>1 new1 where a: "append_slice grow \<sigma> new [p] = (\<sigma>1, new1)"
      by (cases "append_slice grow \<sigma> new [p]")
    from append_slice_apart [OF Cons.prems(2,3,4) _ a]
    have f: "wf_slice \<sigma>1 new1" "wf_slice \<sigma>1 seen" "apart new1 seen"
      "elems \<sigma>1 new1 = elems \<sigma> new @ [p]" "elems \<sigma>1 seen = elems \<sigma> seen"
      by simp_all
    from Cons.IH [OF rest f(1,2,3)] show ?thesis
      using True by (simp add: b a f(4,5))
  next
    case False
    obtain \<sigma>1 seen1 where a: "append_slice grow \<sigma> seen [p] = (\<sigma>1, seen1)"
      by (cases "append_slice grow \<sigma> seen [p]")
    from append_slice_apart [OF Cons.prems(3,2) apart_sym [OF Cons.prems(4)] _ a]
    have f: "wf_slice \<sigma>1 seen1" "wf_slice \<sigma>1 new" "apart seen1 new"
      "elems \<sigma>1 seen1 = elems \<sigma> seen @ [p]" "elems \<sigma>1 new = elems \<sigma> new"
      by simp_all
    from Cons.IH [OF rest f(2,1) apart_sym [OF f(3)]] show ?thesis
      using False by (simp add: b a f(4,5))
  qed
qed

lemma classify_Inl:
  "AboveTheFold (GetVersionStringFromPullRequest p) ledger = Inl err \<Longrightarrow>
   classify grow ledger (p # records) st = Inl (Panicked err)"
  by (cases st) simp

lemma classify_Inr_no_panic:
  "classify grow ledger records st = Inr r \<Longrightarrow>
   \<forall>p\<in>set records. \<not> isl (AboveTheFold (GetVersionStringFromPullRequest p) ledger)"
proof (induction records arbitrary: st)
  case Nil
  then show ?case by simp
next
  case (Cons p records)
  obtain \<sigma> new seen where st: "st = (\<sigma>, new, seen)" by (cases st)
  show ?case
    using Cons.prems Cons.IH unfolding st
    by (auto split: sum.splits bool.splits prod.splits)
qed

section \<open>The response\<close>

lemma Check_respond_response_of:
  "\<exists>ledger news. Check_respond grow previous \<sigma> new seen = response_of previous ledger news"
  by (auto simp: Check_respond_def response_of_def Let_def split: prod.splits)

lemma Check_respond_read:
  assumes "wf_slice \<sigma> new" and "wf_slice \<sigma> seen" and "apart new seen"
  shows "Check_respond grow previous \<sigma> new seen =
     response_of previous
       (GenerateVersion (sort_Sort Pulls_Less (elems \<sigma> new @ elems \<sigma> seen)))
       (if len new + length (elems \<sigma> seen) \<le> cap new
        then take (len new) (sort_Sort Pulls_Less (elems \<sigma> new @ elems \<sigma> seen))
        else elems \<sigma> new)"
proof -
  define N where "N = elems \<sigma> new"
  define S where "S = elems \<sigma> seen"
  define sorted where "sorted = sort_Sort Pulls_Less (N @ S)"
  define cells where "cells = arrays \<sigma> (array new)"
  obtain \<sigma>1 comb where a: "append_slice grow \<sigma> new S = (\<sigma>1, comb)"
    by (cases "append_slice grow \<sigma> new S")
  define \<sigma>2 where "\<sigma>2 = sort_Sort_in_place Pulls_Less \<sigma>1 comb"
  have lN: "length N = len new" unfolding N_def using assms(1) by (rule length_elems)
  have N: "N = take (len new) cells" by (simp add: N_def elems_def cells_def)
  have lcells: "len new \<le> length cells" using assms(1) by (simp add: wf_slice_def cells_def)
  have lsorted: "length sorted = len new + length S" by (simp add: sorted_def length_sort_Sort lN)
  have reads: "elems \<sigma>2 comb = sorted \<and>
     elems \<sigma>2 new = (if len new + length S \<le> cap new then take (len new) sorted else N)"
  proof (cases "len new + length S \<le> cap new")
    case True
    with a have comb: "comb = new\<lparr>len := len new + length S\<rparr>"
      and \<sigma>1: "\<sigma>1 = \<sigma>\<lparr>arrays := (arrays \<sigma>)
                (array new := take (len new) cells @ S @ drop (len new + length S) cells)\<rparr>"
      by (auto simp: append_slice_def Let_def cells_def)
    have e1: "elems \<sigma>1 comb = N @ S"
      using lcells by (simp add: elems_def comb \<sigma>1 N)
    have c2: "elems \<sigma>2 comb = sorted"
      using lsorted by (simp add: \<sigma>2_def sort_Sort_in_place_def e1 sorted_def [symmetric])
         (simp add: elems_def comb)
    have n2: "elems \<sigma>2 new = take (len new) sorted"
      using lsorted by (simp add: \<sigma>2_def sort_Sort_in_place_def e1 sorted_def [symmetric])
         (simp add: elems_def comb)
    show ?thesis using True c2 n2 by simp
  next
    case False
    with a have comb: "comb = \<lparr>array = fresh \<sigma>, len = len new + length S,
                        cap = max (len new + length S) (grow (cap new) (len new + length S))\<rparr>"
      and \<sigma>1: "\<sigma>1 = \<sigma>\<lparr>arrays := (arrays \<sigma>)(fresh \<sigma> := N @ S), fresh := fresh \<sigma> + 1\<rparr>"
      by (auto simp: append_slice_def Let_def N_def)
    have other: "array new \<noteq> fresh \<sigma>" using assms(1) by (simp add: wf_slice_def)
    have e1: "elems \<sigma>1 comb = N @ S"
      using lN by (simp add: elems_def comb \<sigma>1)
    have c2: "elems \<sigma>2 comb = sorted"
      using lsorted by (simp add: \<sigma>2_def sort_Sort_in_place_def e1 sorted_def [symmetric])
         (simp add: elems_def comb)
    have n2: "elems \<sigma>2 new = N"
      using other by (simp add: \<sigma>2_def sort_Sort_in_place_def)
         (simp add: elems_def comb \<sigma>1 N cells_def)
    show ?thesis using False c2 n2 by simp
  qed
  have "Check_respond grow previous \<sigma> new seen =
     response_of previous (GenerateVersion (elems \<sigma>2 comb)) (elems \<sigma>2 new)"
    unfolding Check_respond_def response_of_def Let_def S_def [symmetric] a prod.case
      \<sigma>2_def [symmetric] ..
  then show ?thesis
    using reads by (simp add: sorted_def N_def S_def)
qed

lemma mset_partition_classes:
  assumes "\<forall>p\<in>set records. \<not> isl (f p)"
  shows "mset (filter (\<lambda>p. f p = Inr True) records @ filter (\<lambda>p. f p = Inr False) records) = mset records"
using assms proof (induction records)
  case Nil
  then show ?case by simp
next
  case (Cons p records)
  then obtain b where "f p = Inr b" by (cases "f p") auto
  then show ?case using Cons by (cases b) auto
qed

lemma Check_no_panic:
  assumes "snapshot Match request manager = Some records"
    and "\<forall>p\<in>set records. \<not> isl (AboveTheFold (GetVersionStringFromPullRequest p) (AlreadySeen (Version request)))"
  shows "\<exists>c. length (filter (\<lambda>p. AboveTheFold (GetVersionStringFromPullRequest p) (AlreadySeen (Version request)) = Inr True) records) \<le> c \<and>
     Check grow Match request manager =
       Inr (response_of (Version request)
             (GenerateVersion (sort_Sort Pulls_Less
                (filter (\<lambda>p. AboveTheFold (GetVersionStringFromPullRequest p) (AlreadySeen (Version request)) = Inr True) records @
                 filter (\<lambda>p. AboveTheFold (GetVersionStringFromPullRequest p) (AlreadySeen (Version request)) = Inr False) records)))
             (if length (filter (\<lambda>p. AboveTheFold (GetVersionStringFromPullRequest p) (AlreadySeen (Version request)) = Inr True) records) +
                 length (filter (\<lambda>p. AboveTheFold (GetVersionStringFromPullRequest p) (AlreadySeen (Version request)) = Inr False) records) \<le> c
              then take (length (filter (\<lambda>p. AboveTheFold (GetVersionStringFromPullRequest p) (AlreadySeen (Version request)) = Inr True) records))
                     (sort_Sort Pulls_Less
                        (filter (\<lambda>p. AboveTheFold (GetVersionStringFromPullRequest p) (AlreadySeen (Version request)) = Inr True) records @
                         filter (\<lambda>p. AboveTheFold (GetVersionStringFromPullRequest p) (AlreadySeen (Version request)) = Inr False) records))
              else filter (\<lambda>p. AboveTheFold (GetVersionStringFromPullRequest p) (AlreadySeen (Version request)) = Inr True) records))"
proof -
  define N where "N = filter (\<lambda>p. AboveTheFold (GetVersionStringFromPullRequest p) (AlreadySeen (Version request)) = Inr True) records"
  define S where "S = filter (\<lambda>p. AboveTheFold (GetVersionStringFromPullRequest p) (AlreadySeen (Version request)) = Inr False) records"
  from classify_Inr [OF assms(2) wf_nil_slice wf_nil_slice apart_nil_slice, of grow]
  obtain \<sigma> new seen where
    c: "classify grow (AlreadySeen (Version request)) records (no_arrays, nil_slice, nil_slice) = Inr (\<sigma>, new, seen)"
    and wf: "wf_slice \<sigma> new" "wf_slice \<sigma> seen" "apart new seen"
    and e: "elems \<sigma> new = N" "elems \<sigma> seen = S"
    by (auto simp: elems_nil_slice N_def S_def)
  have l: "len new = length N" using length_elems [OF wf(1)] e(1) by simp
  have cap: "length N \<le> cap new" using wf(1) l by (simp add: wf_slice_def)
  have "Check grow Match request manager = Inr (Check_respond grow (Version request) \<sigma> new seen)"
    by (simp add: Check_snapshot [OF assms(1)] c)
  then have "Check grow Match request manager =
       Inr (response_of (Version request) (GenerateVersion (sort_Sort Pulls_Less (N @ S)))
             (if length N + length S \<le> cap new then take (length N) (sort_Sort Pulls_Less (N @ S)) else N))"
    by (simp add: Check_respond_read [OF wf] e l)
  with cap show ?thesis unfolding N_def S_def by blast
qed

lemma Check_no_panic_news:
  assumes "snapshot Match request manager = Some records"
    and "\<forall>p\<in>set records. \<not> isl (AboveTheFold (GetVersionStringFromPullRequest p) (AlreadySeen (Version request)))"
  shows "\<exists>ordered news.
     Check grow Match request manager =
       Inr (response_of (Version request) (GenerateVersion ordered) news) \<and>
     mset ordered = mset records \<and>
     sorted_wrt (\<lambda>a b. sint (Number a) \<le> sint (Number b)) ordered \<and>
     length news =
       length (filter (\<lambda>p. AboveTheFold (GetVersionStringFromPullRequest p) (AlreadySeen (Version request)) = Inr True) records) \<and>
     set news \<subseteq> set records \<and>
     (filter (\<lambda>p. AboveTheFold (GetVersionStringFromPullRequest p) (AlreadySeen (Version request)) = Inr False) records = [] \<longrightarrow>
        ordered = sort_Sort Pulls_Less records \<and> news = ordered)"
proof -
  define f where "f = (\<lambda>p. AboveTheFold (GetVersionStringFromPullRequest p) (AlreadySeen (Version request)))"
  define N where "N = filter (\<lambda>p. f p = Inr True) records"
  define S where "S = filter (\<lambda>p. f p = Inr False) records"
  define ordered where "ordered = sort_Sort Pulls_Less (N @ S)"
  have ok: "\<forall>p\<in>set records. \<not> isl (f p)" using assms(2) by (simp add: f_def)
  from Check_no_panic [OF assms, of grow] obtain c where c: "length N \<le> c"
    and ch: "Check grow Match request manager =
       Inr (response_of (Version request) (GenerateVersion ordered)
             (if length N + length S \<le> c then take (length N) ordered else N))"
    unfolding N_def S_def f_def ordered_def by blast
  define news where "news = (if length N + length S \<le> c then take (length N) ordered else N)"
  have m: "mset ordered = mset records"
    using mset_partition_classes [OF ok] by (simp add: ordered_def mset_sort_Sort N_def S_def)
  have "sorted_wrt (\<lambda>a b. \<not> Pulls_Less b a) ordered" unfolding ordered_def by (rule sorted_Pulls)
  then have s: "sorted_wrt (\<lambda>a b. sint (Number a) \<le> sint (Number b)) ordered"
    by (simp add: Pulls_Less_def not_less)
  have lo: "length ordered = length N + length S" by (simp add: ordered_def length_sort_Sort)
  have ln: "length news = length N" by (simp add: news_def lo)
  have so: "set ordered = set records" using m by (metis set_mset_mset)
  have sn: "set news \<subseteq> set records"
    using set_take_subset [of "length N" ordered] so by (auto simp: news_def N_def)
  have all: "S = [] \<longrightarrow> ordered = sort_Sort Pulls_Less records \<and> news = ordered"
  proof
    assume e: "S = []"
    have "\<forall>p\<in>set records. f p = Inr True"
    proof
      fix p
      assume p: "p \<in> set records"
      with ok obtain b where b: "f p = Inr b" by (cases "f p") auto
      have "p \<notin> set S" using e by simp
      then have "f p \<noteq> Inr False" using p by (simp add: S_def)
      with b show "f p = Inr True" by (cases b) auto
    qed
    then have "N = records" by (simp add: N_def)
    then show "ordered = sort_Sort Pulls_Less records \<and> news = ordered"
      using e c by (simp add: ordered_def news_def length_sort_Sort)
  qed
  have ch': "Check grow Match request manager =
       Inr (response_of (Version request) (GenerateVersion ordered) news)"
    using ch by (simp add: news_def)
  have ln': "length news =
       length (filter (\<lambda>p. AboveTheFold (GetVersionStringFromPullRequest p) (AlreadySeen (Version request)) = Inr True) records)"
    using ln by (simp add: N_def f_def)
  have all': "filter (\<lambda>p. AboveTheFold (GetVersionStringFromPullRequest p) (AlreadySeen (Version request)) = Inr False) records = [] \<longrightarrow>
        ordered = sort_Sort Pulls_Less records \<and> news = ordered"
    using all by (simp add: S_def f_def)
  from ch' m s ln' sn all' show ?thesis by blast
qed

lemma Check_no_colon:
  assumes "\<not> strings_Contains (AlreadySeen (Version request)) '':''"
    and "snapshot Match request manager = Some records"
  shows "Check grow Match request manager =
     Inr (response_of (Version request) (GenerateVersion (sort_Sort Pulls_Less records))
            (sort_Sort Pulls_Less records))"
proof -
  have all: "\<And>p. AboveTheFold (GetVersionStringFromPullRequest p) (AlreadySeen (Version request)) = Inr True"
    using assms(1) by (rule AboveTheFold_no_colon)
  from Check_no_panic_news [OF assms(2), of grow] show ?thesis by (auto simp: all)
qed

lemma Check_Inr_no_panic:
  assumes "snapshot Match request manager = Some records"
    and "Check grow Match request manager = Inr response"
  shows "\<forall>p\<in>set records. \<not> isl (AboveTheFold (GetVersionStringFromPullRequest p) (AlreadySeen (Version request)))"
proof -
  from assms obtain r where
    "classify grow (AlreadySeen (Version request)) records (no_arrays, nil_slice, nil_slice) = Inr r"
    by (auto simp: Check_snapshot [OF assms(1)] split: sum.splits)
  then show ?thesis by (rule classify_Inr_no_panic)
qed

lemma Check_Inr_response_of:
  "Check grow Match request manager = Inr response \<Longrightarrow>
   \<exists>ledger news. response = response_of (Version request) ledger news"
  using Check_respond_response_of
  by (auto simp: Check_def split: sum.splits prod.splits)

lemma sorted_response_of:
  "sorted_wrt (\<lambda>a b. \<not> After (Version.CommittedDate a) (Version.CommittedDate b))
     (response_of previous ledger news)"
proof -
  let ?vs = "sort_Sort CheckResponse_Less (map (\<lambda>p. NewVersion p ledger) news)"
  have "sorted_wrt (\<lambda>a b. \<not> CheckResponse_Less b a) ?vs" by (rule sorted_CheckResponse)
  then have s: "sorted_wrt (\<lambda>a b. \<not> After (Version.CommittedDate a) (Version.CommittedDate b)) ?vs"
    by (simp add: CheckResponse_Less_def)
  show ?thesis
    using s by (simp add: response_of_def Let_def)
qed

lemma response_of_news:
  "news \<noteq> [] \<Longrightarrow> AlreadySeen previous \<noteq> [] \<Longrightarrow>
   response_of previous ledger news =
     sort_Sort CheckResponse_Less (map (\<lambda>p. NewVersion p ledger) news)"
  by (simp add: response_of_def Let_def sort_Sort_Nil_iff)

lemma response_of_first:
  "news \<noteq> [] \<Longrightarrow> AlreadySeen previous = [] \<Longrightarrow>
   response_of previous ledger news =
     [last (sort_Sort CheckResponse_Less (map (\<lambda>p. NewVersion p ledger) news))]"
proof -
  assume a: "news \<noteq> []" "AlreadySeen previous = []"
  let ?vs = "sort_Sort CheckResponse_Less (map (\<lambda>p. NewVersion p ledger) news)"
  have ne: "?vs \<noteq> []" using a(1) by (simp add: sort_Sort_Nil_iff)
  then have "?vs ! (length ?vs - 1) = last ?vs" by (simp add: last_conv_nth)
  then show ?thesis using a ne by (simp add: response_of_def Let_def)
qed

lemma response_of_no_news:
  "AlreadySeen previous \<noteq> [] \<Longrightarrow> response_of previous ledger [] = [previous]"
  by (simp add: response_of_def Let_def sort_Sort_def)

lemma response_of_not_Nil: "news \<noteq> [] \<Longrightarrow> response_of previous ledger news \<noteq> []"
  by (cases "AlreadySeen previous = []")
     (simp_all add: response_of_first response_of_news sort_Sort_Nil_iff)

lemma response_of_built:
  "v \<in> set (response_of previous ledger news) \<Longrightarrow> news \<noteq> [] \<Longrightarrow>
   \<exists>q\<in>set news. v = NewVersion q ledger"
proof -
  assume v: "v \<in> set (response_of previous ledger news)" and ne: "news \<noteq> []"
  let ?vs = "sort_Sort CheckResponse_Less (map (\<lambda>p. NewVersion p ledger) news)"
  have vsne: "?vs \<noteq> []" using ne by (simp add: sort_Sort_Nil_iff)
  have "v \<in> set ?vs"
  proof (cases "AlreadySeen previous = []")
    case True
    with v ne have "v = last ?vs" by (simp add: response_of_first)
    then show ?thesis using vsne last_in_set by blast
  next
    case False
    with v ne show ?thesis by (simp add: response_of_news)
  qed
  then show ?thesis by (auto simp: set_sort_Sort)
qed

lemma AlreadySeen_response_of:
  "news \<noteq> [] \<Longrightarrow> v \<in> set (response_of previous ledger news) \<Longrightarrow> AlreadySeen v = ledger"
  using response_of_built [of v previous ledger news] by (auto simp: NewVersion_def)

section \<open>The properties\<close>

subsection \<open>C1\<close>

text \<open>
  C1, amended. Let the previous ledger have an entry with a colon whose timestamp field is
  no valid integer, and let the snapshot hold at least one record. Then \<open>Check\<close> does not
  return: it panics, with the error of decoding an entry of the ledger, so that no record
  is treated as new. (On an empty snapshot the ledger is never decoded.)
\<close>

theorem malformed_ledger_panics:
  assumes "snapshot Match request manager = Some records"
    and "records \<noteq> []"
    and "pair \<in> set (strings_Split (AlreadySeen (Version request)) CHR '','')"
    and "CHR '':'' \<in> set pair"
    and "isl (ParseInt (strings_Split pair CHR '':'' ! 1))"
  shows "\<exists>err. Check grow Match request manager = Inl (Panicked err) \<and>
     (\<exists>bad\<in>set (strings_Split (AlreadySeen (Version request)) CHR '','').
        ExtractVersionFromVersionString bad = Inl err)"
proof -
  let ?ledger = "AlreadySeen (Version request)"
  have "set pair \<subseteq> set ?ledger" using assms(3) by (rule set_strings_Split)
  then have c: "strings_Contains ?ledger '':''"
    using assms(4) by (auto simp: strings_Contains_single)
  have "isl (ExtractVersionFromVersionString pair)"
    using assms(4,5) by (rule Extract_ParseInt_fails)
  then have b: "\<exists>pair\<in>set (strings_Split ?ledger CHR '',''). isl (ExtractVersionFromVersionString pair)"
    using assms(3) by blast
  obtain p rest where r: "records = p # rest" using assms(2) by (cases records) auto
  from AboveTheFold_fails_record [OF c b, of p]
  obtain err where e: "AboveTheFold (GetVersionStringFromPullRequest p) ?ledger = Inl err"
    and bad: "\<exists>bad\<in>set (strings_Split ?ledger CHR '',''). ExtractVersionFromVersionString bad = Inl err"
    by blast
  have "Check grow Match request manager = Inl (Panicked err)"
    unfolding Check_snapshot [OF assms(1)] r by (simp add: e)
  with bad show ?thesis by blast
qed

theorem malformed_ledger_panics_witness:
  "snapshot literal_Match (example_request ''P1:notanumber'') (example_manager [P1, P3_skipped]) = Some [P1] \<and>
   [P1] \<noteq> [] \<and>
   ''P1:notanumber'' \<in> set (strings_Split (AlreadySeen (Version (example_request ''P1:notanumber''))) CHR '','') \<and>
   CHR '':'' \<in> set ''P1:notanumber'' \<and>
   isl (ParseInt (strings_Split ''P1:notanumber'' CHR '':'' ! 1)) \<and>
   (\<exists>err. Check doubling literal_Match (example_request ''P1:notanumber'') (example_manager [P1, P3_skipped])
            = Inl (Panicked err) \<and>
     (\<exists>bad\<in>set (strings_Split (AlreadySeen (Version (example_request ''P1:notanumber''))) CHR '','').
        ExtractVersionFromVersionString bad = Inl err)) \<and>
   Check doubling literal_Match (example_request ''P1:notanumber'') (example_manager [P1, P3_skipped])
     = Inl (Panicked (NumError ''ParseInt'' ''notanumber'' ErrSyntax))"
proof -
  have s: "snapshot literal_Match (example_request ''P1:notanumber'') (example_manager [P1, P3_skipped]) = Some [P1]"
    by code_simp
  have n: "[P1] \<noteq> []" by simp
  have m: "''P1:notanumber'' \<in> set (strings_Split (AlreadySeen (Version (example_request ''P1:notanumber''))) CHR '','')"
    by code_simp
  have c: "CHR '':'' \<in> set ''P1:notanumber''" by code_simp
  have i: "isl (ParseInt (strings_Split ''P1:notanumber'' CHR '':'' ! 1))" by code_simp
  have v: "Check doubling literal_Match (example_request ''P1:notanumber'') (example_manager [P1, P3_skipped])
     = Inl (Panicked (NumError ''ParseInt'' ''notanumber'' ErrSyntax))"
    by code_simp
  from malformed_ledger_panics [OF s n m c i, of doubling] s n m c i v show ?thesis by blast
qed

text \<open>
  The claim as stated fails on an empty snapshot: with the ledger \<open>P1:notanumber\<close> and no
  open pull request, \<open>Check\<close> never decodes the ledger and returns the previous version.
\<close>

theorem malformed_ledger_empty_snapshot_returns:
  "strings_Contains (AlreadySeen (Version (example_request ''P1:notanumber''))) '':'' \<and>
   ParseInt (strings_Split ''P1:notanumber'' CHR '':'' ! 1) = Inl (NumError ''ParseInt'' ''notanumber'' ErrSyntax) \<and>
   snapshot literal_Match (example_request ''P1:notanumber'') (example_manager []) = Some [] \<and>
   Check doubling literal_Match (example_request ''P1:notanumber'') (example_manager [])
     = Inr [example_previous ''P1:notanumber'']"
  by code_simp

subsection \<open>C2\<close>

text \<open>
  C2, amended. Let the records of the snapshot have distinct numbers, let the previous ledger
  be one that decodes (or has no colon), and let some record be above the fold. Then \<open>Check\<close>
  returns versions, and the ledger of each of them decodes to exactly the entries of the
  records of the snapshot: one entry for each record, with its number and the time of its
  tip to the second, and no other entry.
\<close>

theorem new_ledger_complete:
  assumes "snapshot Match request manager = Some records"
    and "distinct (map Number records)"
    and "usable_ledger (AlreadySeen (Version request))"
    and "\<exists>p\<in>set records.
           AboveTheFold (GetVersionStringFromPullRequest p) (AlreadySeen (Version request)) = Inr True"
  shows "\<exists>response. Check grow Match request manager = Inr response \<and> response \<noteq> [] \<and>
     (\<forall>v\<in>set response. \<exists>entries.
        decode_ledger (AlreadySeen v) = map Inr entries \<and>
        mset entries = image_mset ledger_entry (mset records) \<and>
        distinct (map AlreadySeenVersion.PR entries))"
proof -
  let ?f = "\<lambda>p. AboveTheFold (GetVersionStringFromPullRequest p) (AlreadySeen (Version request))"
  have ok: "\<forall>p\<in>set records. \<not> isl (?f p)"
    using usable_no_panic [OF assms(3)] by blast
  from Check_no_panic_news [OF assms(1) ok, of grow] obtain ordered news where
    c: "Check grow Match request manager =
          Inr (response_of (Version request) (GenerateVersion ordered) news)"
    and m: "mset ordered = mset records"
    and l: "length news = length (filter (\<lambda>p. ?f p = Inr True) records)"
    by blast
  have "filter (\<lambda>p. ?f p = Inr True) records \<noteq> []"
    using assms(4) by (auto simp: filter_empty_conv)
  with l have ne: "news \<noteq> []" by auto
  have rne: "records \<noteq> []" using assms(4) by auto
  let ?response = "response_of (Version request) (GenerateVersion ordered) news"
  have "\<forall>v\<in>set ?response. \<exists>entries.
        decode_ledger (AlreadySeen v) = map Inr entries \<and>
        mset entries = image_mset ledger_entry (mset records) \<and>
        distinct (map AlreadySeenVersion.PR entries)"
  proof
    fix v
    assume "v \<in> set ?response"
    then have "AlreadySeen v = GenerateVersion ordered"
      using AlreadySeen_response_of [OF ne] by blast
    then show "\<exists>entries.
        decode_ledger (AlreadySeen v) = map Inr entries \<and>
        mset entries = image_mset ledger_entry (mset records) \<and>
        distinct (map AlreadySeenVersion.PR entries)"
      using GenerateVersion_decodes [OF m rne assms(2)] by simp
  qed
  moreover have "?response \<noteq> []" using ne by (rule response_of_not_Nil)
  ultimately show ?thesis using c by blast
qed

theorem new_ledger_complete_witness:
  "snapshot literal_Match (example_request ''1:100,2:200,3:50'') (example_manager [P2_advanced, P3_skipped, P1])
     = Some [P2_advanced, P1] \<and>
   distinct (map Number [P2_advanced, P1]) \<and>
   usable_ledger (AlreadySeen (Version (example_request ''1:100,2:200,3:50''))) \<and>
   (\<exists>p\<in>set [P2_advanced, P1].
      AboveTheFold (GetVersionStringFromPullRequest p)
        (AlreadySeen (Version (example_request ''1:100,2:200,3:50''))) = Inr True) \<and>
   (\<exists>response.
      Check doubling literal_Match (example_request ''1:100,2:200,3:50'') (example_manager [P2_advanced, P3_skipped, P1])
        = Inr response \<and> response \<noteq> [] \<and>
      (\<forall>v\<in>set response. \<exists>entries.
        decode_ledger (AlreadySeen v) = map Inr entries \<and>
        mset entries = image_mset ledger_entry (mset [P2_advanced, P1]) \<and>
        distinct (map AlreadySeenVersion.PR entries)))"
proof -
  have s: "snapshot literal_Match (example_request ''1:100,2:200,3:50'')
             (example_manager [P2_advanced, P3_skipped, P1]) = Some [P2_advanced, P1]"
    by code_simp
  have d: "distinct (map Number [P2_advanced, P1])" by code_simp
  have u: "usable_ledger (AlreadySeen (Version (example_request ''1:100,2:200,3:50'')))"
    by code_simp
  have a: "\<exists>p\<in>set [P2_advanced, P1].
      AboveTheFold (GetVersionStringFromPullRequest p)
        (AlreadySeen (Version (example_request ''1:100,2:200,3:50''))) = Inr True"
    by code_simp
  from new_ledger_complete [OF s d u a, of doubling] s d u a show ?thesis by blast
qed

text \<open>
  The claim as stated, for every version that \<open>Check\<close> returns, fails when nothing has
  advanced: with the ledger \<open>1:100,2:200\<close> and a snapshot that holds record 1 alone,
  unchanged, \<open>Check\<close> returns the previous version, whose ledger still has the entry of
  record 2, a record absent from the snapshot.
\<close>

theorem reemitted_ledger_keeps_absent_record:
  "snapshot literal_Match (example_request ''1:100,2:200'') (example_manager [P1]) = Some [P1] \<and>
   distinct (map Number [P1]) \<and>
   usable_ledger (AlreadySeen (Version (example_request ''1:100,2:200''))) \<and>
   Check doubling literal_Match (example_request ''1:100,2:200'') (example_manager [P1])
     = Inr [example_previous ''1:100,2:200''] \<and>
   decode_ledger (AlreadySeen (example_previous ''1:100,2:200'')) =
     [Inr \<lparr>AlreadySeenVersion.PR = ''1'', committedDate = time_Unix 100\<rparr>,
      Inr \<lparr>AlreadySeenVersion.PR = ''2'', committedDate = time_Unix 200\<rparr>] \<and>
   map ledger_entry [P1] = [\<lparr>AlreadySeenVersion.PR = ''1'', committedDate = time_Unix 100\<rparr>]"
  by code_simp

subsection \<open>C3\<close>

text \<open>
  C3. On a first check, with an empty ledger in the previous version, of a snapshot of at
  least one record whose tips have pairwise distinct timestamps, \<open>Check\<close> returns exactly
  one version: the one built from the record whose tip is after the tip of every other
  record, with the ledger of the whole snapshot.
\<close>

theorem first_check_latest_only:
  assumes "snapshot Match request manager = Some records"
    and "records \<noteq> []"
    and "distinct (map (\<lambda>p. CommitObject.CommittedDate (Tip p)) records)"
    and "AlreadySeen (Version request) = ''''"
  shows "\<exists>p\<in>set records.
           (\<forall>q\<in>set records. q \<noteq> p \<longrightarrow>
              After (CommitObject.CommittedDate (Tip p)) (CommitObject.CommittedDate (Tip q))) \<and>
           Check grow Match request manager =
             Inr [NewVersion p (GenerateVersion (sort_Sort Pulls_Less records))]"
proof -
  let ?L = "GenerateVersion (sort_Sort Pulls_Less records)"
  let ?news = "sort_Sort Pulls_Less records"
  let ?vs = "sort_Sort CheckResponse_Less (map (\<lambda>p. NewVersion p ?L) ?news)"
  have nc: "\<not> strings_Contains (AlreadySeen (Version request)) '':''"
    using assms(4) by simp
  have nne: "?news \<noteq> []" using assms(2) by (simp add: sort_Sort_Nil_iff)
  have c: "Check grow Match request manager = Inr [last ?vs]"
    using Check_no_colon [OF nc assms(1), of grow] response_of_first [OF nne assms(4), of ?L] by simp
  have vsne: "?vs \<noteq> []" using nne by (simp add: sort_Sort_Nil_iff)
  then have "last ?vs \<in> set ?vs" by (rule last_in_set)
  then obtain p where p: "p \<in> set records" "last ?vs = NewVersion p ?L"
    by (auto simp: set_sort_Sort)
  have "\<forall>q\<in>set records. q \<noteq> p \<longrightarrow>
          After (CommitObject.CommittedDate (Tip p)) (CommitObject.CommittedDate (Tip q))"
  proof (intro ballI impI)
    fix q
    assume q: "q \<in> set records" "q \<noteq> p"
    have inj: "inj_on (\<lambda>p. CommitObject.CommittedDate (Tip p)) (set records)"
      using assms(3) by (simp add: distinct_map)
    have ne: "CommitObject.CommittedDate (Tip p) \<noteq> CommitObject.CommittedDate (Tip q)"
      using inj p(1) q by (auto dest: inj_onD)
    have "NewVersion q ?L \<in> set ?vs" using q(1) by (simp add: set_sort_Sort)
    from last_sorted_versions [OF vsne sorted_CheckResponse this]
    have "\<not> After (Version.CommittedDate (NewVersion q ?L)) (Version.CommittedDate (NewVersion p ?L))"
      unfolding p(2) .
    then have "\<not> After (CommitObject.CommittedDate (Tip q)) (CommitObject.CommittedDate (Tip p))"
      by (simp add: NewVersion_def)
    with After_total [OF ne] show "After (CommitObject.CommittedDate (Tip p)) (CommitObject.CommittedDate (Tip q))"
      by blast
  qed
  with p c show ?thesis by auto
qed

theorem first_check_latest_only_witness:
  "snapshot literal_Match (example_request '''') (example_manager [P2, P3_skipped, P1]) = Some [P2, P1] \<and>
   [P2, P1] \<noteq> [] \<and>
   distinct (map (\<lambda>p. CommitObject.CommittedDate (Tip p)) [P2, P1]) \<and>
   AlreadySeen (Version (example_request '''')) = '''' \<and>
   (\<exists>p\<in>set [P2, P1].
      (\<forall>q\<in>set [P2, P1]. q \<noteq> p \<longrightarrow>
         After (CommitObject.CommittedDate (Tip p)) (CommitObject.CommittedDate (Tip q))) \<and>
      Check doubling literal_Match (example_request '''') (example_manager [P2, P3_skipped, P1]) =
        Inr [NewVersion p (GenerateVersion (sort_Sort Pulls_Less [P2, P1]))]) \<and>
   Check doubling literal_Match (example_request '''') (example_manager [P2, P3_skipped, P1]) =
     Inr [NewVersion P2 ''1:100,2:200'']"
proof -
  have s: "snapshot literal_Match (example_request '''') (example_manager [P2, P3_skipped, P1]) = Some [P2, P1]"
    by code_simp
  have n: "[P2, P1] \<noteq> []" by simp
  have d: "distinct (map (\<lambda>p. CommitObject.CommittedDate (Tip p)) [P2, P1])"
    by code_simp
  have a: "AlreadySeen (Version (example_request '''')) = ''''"
    by code_simp
  have c: "Check doubling literal_Match (example_request '''') (example_manager [P2, P3_skipped, P1]) =
     Inr [NewVersion P2 ''1:100,2:200'']"
    by code_simp
  from first_check_latest_only [OF s n d a, of doubling] s n d a c show ?thesis by blast
qed

subsection \<open>C4\<close>

text \<open>
  C4, amended. When the previous version carries a ledger that is not empty and each of whose
  entries decodes, and each record of the snapshot has an entry in that ledger and a tip that
  is not after the time of any of its entries, \<open>Check\<close> returns the previous version,
  unchanged, as the only element.
\<close>

theorem no_advance_returns_previous:
  assumes "snapshot Match request manager = Some records"
    and "AlreadySeen (Version request) \<noteq> ''''"
    and "\<forall>p\<in>set records. tracked_unchanged (AlreadySeen (Version request)) p"
  shows "Check grow Match request manager = Inr [Version request]"
proof -
  let ?f = "\<lambda>p. AboveTheFold (GetVersionStringFromPullRequest p) (AlreadySeen (Version request))"
  have below: "\<forall>p\<in>set records. ?f p = Inr False"
    using assms(3) tracked_unchanged_below by blast
  then have ok: "\<forall>p\<in>set records. \<not> isl (?f p)" by simp
  have none: "filter (\<lambda>p. ?f p = Inr True) records = []"
    using below by (simp add: filter_empty_conv)
  from Check_no_panic_news [OF assms(1) ok, of grow] obtain ordered news where
    c: "Check grow Match request manager =
          Inr (response_of (Version request) (GenerateVersion ordered) news)"
    and l: "length news = length (filter (\<lambda>p. ?f p = Inr True) records)"
    by blast
  from l none have "news = []" by simp
  with c assms(2) show ?thesis by (simp add: response_of_no_news)
qed

theorem no_advance_returns_previous_witness:
  "snapshot literal_Match (example_request ''1:100,2:200,3:50'') (example_manager [P2, P3_skipped, P1])
     = Some [P2, P1] \<and>
   AlreadySeen (Version (example_request ''1:100,2:200,3:50'')) \<noteq> '''' \<and>
   tracked_unchanged (AlreadySeen (Version (example_request ''1:100,2:200,3:50''))) P2 \<and>
   tracked_unchanged (AlreadySeen (Version (example_request ''1:100,2:200,3:50''))) P1 \<and>
   Check doubling literal_Match (example_request ''1:100,2:200,3:50'') (example_manager [P2, P3_skipped, P1])
     = Inr [Version (example_request ''1:100,2:200,3:50'')]"
proof -
  have s: "snapshot literal_Match (example_request ''1:100,2:200,3:50'') (example_manager [P2, P3_skipped, P1])
     = Some [P2, P1]"
    by code_simp
  have n: "AlreadySeen (Version (example_request ''1:100,2:200,3:50'')) \<noteq> ''''"
    by code_simp
  have t2: "tracked_unchanged (AlreadySeen (Version (example_request ''1:100,2:200,3:50''))) P2"
    by code_simp
  have t1: "tracked_unchanged (AlreadySeen (Version (example_request ''1:100,2:200,3:50''))) P1"
    by code_simp
  have t: "\<forall>p\<in>set [P2, P1]. tracked_unchanged (AlreadySeen (Version (example_request ''1:100,2:200,3:50''))) p"
    using t2 t1 by simp
  from no_advance_returns_previous [OF s n t, of doubling] s n t2 t1 show ?thesis by blast
qed

text \<open>
  Without the condition that each entry of the ledger decodes, the property fails. The ledger
  \<open>1:100,9:abc\<close> is not empty; the one record of the snapshot, \<open>P1\<close>, has the entry \<open>1:100\<close>
  in it, which is its only entry there, and the tip of \<open>P1\<close> is not after the time of that
  entry. \<open>AboveTheFold\<close> decodes every entry of the ledger, also those of other records, and
  \<open>ExtractVersionFromVersionString\<close> panics on \<open>9:abc\<close>: \<open>Check\<close> does not return the previous
  version, it ends by that panic.
\<close>

theorem undecodable_entry_of_other_record_panics:
  "snapshot literal_Match (example_request ''1:100,9:abc'') (example_manager [P1]) = Some [P1] \<and>
   AlreadySeen (Version (example_request ''1:100,9:abc'')) \<noteq> '''' \<and>
   strings_Split (AlreadySeen (Version (example_request ''1:100,9:abc''))) CHR '','' = [''1:100'', ''9:abc''] \<and>
   GetVersionStringFromPullRequest P1 = ''1:100'' \<and>
   ExtractVersionFromVersionString ''1:100'' = Inr (ledger_entry P1) \<and>
   \<not> After (committedDate (ledger_entry P1)) (committedDate (ledger_entry P1)) \<and>
   ExtractVersionFromVersionString ''9:abc'' = Inl (NumError ''ParseInt'' ''abc'' ErrSyntax) \<and>
   Check doubling literal_Match (example_request ''1:100,9:abc'') (example_manager [P1])
     = Inl (Panicked (NumError ''ParseInt'' ''abc'' ErrSyntax))"
  by code_simp

subsection \<open>C5\<close>

text \<open>
  C5. A record whose tip has exactly the time of its entry in the previous ledger is below
  the fold, and no new version that \<open>Check\<close> returns is to be built from it. The first
  half holds (\<open>equal_timestamp_classified_below\<close>). The second half fails on the input
  below. The record \<open>P1\<close> has number 1 and a tip committed at second 100, the time of the
  one entry of the ledger \<open>1:100\<close>, and \<open>AboveTheFold\<close> answers false for it. Yet \<open>Check\<close>
  returns a version built from \<open>P1\<close>, and none built from \<open>P7\<close>, which is new. The three new
  records leave \<open>newPullsToReturn\<close> with length 3 in an array of capacity 4, so that
  \<open>append(newPullsToReturn, alreadySeenPullsToHide...)\<close> writes \<open>P1\<close> into that same array;
  \<open>sort.Sort(combinedVersions)\<close> moves \<open>P1\<close> to the front of it; and \<open>newPullsToReturn\<close>
  reads its first three cells.
\<close>

theorem unchanged_record_returned_as_new:
  "AboveTheFold (GetVersionStringFromPullRequest P1) ''1:100'' = Inr False \<and>
   AboveTheFold (GetVersionStringFromPullRequest P7) ''1:100'' = Inr True \<and>
   snapshot literal_Match (example_request ''1:100'') (example_manager [P5, P6, P7, P1])
     = Some [P5, P6, P7, P1] \<and>
   Check doubling literal_Match (example_request ''1:100'') (example_manager [P5, P6, P7, P1])
     = Inr [NewVersion P1 ''1:100,5:500,6:600,7:700'',
            NewVersion P5 ''1:100,5:500,6:600,7:700'',
            NewVersion P6 ''1:100,5:500,6:600,7:700'']"
  by code_simp

subsection \<open>C6\<close>

text \<open>
  C6. On a ledger without any colon, the empty one and colon-free garbage alike,
  \<open>AboveTheFold\<close> answers true for every current entry, and \<open>Check\<close> does not fail: it
  responds with all records of the snapshot taken as new. When that ledger is not empty and
  the snapshot is not empty, the response has a version for each record of the snapshot.
\<close>

theorem no_colon_all_new:
  assumes "\<not> strings_Contains ledger '':''"
  shows "AboveTheFold cur ledger = Inr True \<and>
     (\<forall>grow Match request manager records.
        AlreadySeen (Version request) = ledger \<and> snapshot Match request manager = Some records \<longrightarrow>
        Check grow Match request manager =
          Inr (response_of (Version request) (GenerateVersion (sort_Sort Pulls_Less records))
                 (sort_Sort Pulls_Less records)) \<and>
        (records \<noteq> [] \<and> ledger \<noteq> [] \<longrightarrow>
           Check grow Match request manager =
             Inr (sort_Sort CheckResponse_Less
                    (map (\<lambda>p. NewVersion p (GenerateVersion (sort_Sort Pulls_Less records)))
                       (sort_Sort Pulls_Less records)))))"
proof (intro conjI allI impI)
  show "AboveTheFold cur ledger = Inr True"
    using assms by (rule AboveTheFold_no_colon)
next
  fix grow Match request manager records
  assume a: "AlreadySeen (Version request) = ledger \<and> snapshot Match request manager = Some records"
  then have nc: "\<not> strings_Contains (AlreadySeen (Version request)) '':''"
    and s: "snapshot Match request manager = Some records"
    using assms by simp_all
  show c: "Check grow Match request manager =
          Inr (response_of (Version request) (GenerateVersion (sort_Sort Pulls_Less records))
                 (sort_Sort Pulls_Less records))"
    using nc s by (rule Check_no_colon)
  assume "records \<noteq> [] \<and> ledger \<noteq> []"
  then have "sort_Sort Pulls_Less records \<noteq> []" "AlreadySeen (Version request) \<noteq> []"
    using a by (simp_all add: sort_Sort_Nil_iff)
  then show "Check grow Match request manager =
             Inr (sort_Sort CheckResponse_Less
                    (map (\<lambda>p. NewVersion p (GenerateVersion (sort_Sort Pulls_Less records)))
                       (sort_Sort Pulls_Less records)))"
    using c by (simp add: response_of_news)
qed

theorem no_colon_all_new_witness:
  "\<not> strings_Contains ''garbage'' '':'' \<and>
   AlreadySeen (Version (example_request ''garbage'')) = ''garbage'' \<and>
   snapshot literal_Match (example_request ''garbage'') (example_manager [P2, P3_skipped, P1]) = Some [P2, P1] \<and>
   [P2, P1] \<noteq> [] \<and> ''garbage'' \<noteq> [] \<and>
   AboveTheFold ''2:200'' ''garbage'' = Inr True \<and>
   Check doubling literal_Match (example_request ''garbage'') (example_manager [P2, P3_skipped, P1]) =
     Inr [NewVersion P1 ''1:100,2:200'', NewVersion P2 ''1:100,2:200'']"
proof -
  have h: "\<not> strings_Contains ''garbage'' '':''"
    by code_simp
  have l: "AlreadySeen (Version (example_request ''garbage'')) = ''garbage''"
    by code_simp
  have s: "snapshot literal_Match (example_request ''garbage'') (example_manager [P2, P3_skipped, P1]) = Some [P2, P1]"
    by code_simp
  have n: "[P2, P1] \<noteq> [] \<and> ''garbage'' \<noteq> []"
    by simp
  have v: "sort_Sort CheckResponse_Less
             (map (\<lambda>p. NewVersion p (GenerateVersion (sort_Sort Pulls_Less [P2, P1])))
                (sort_Sort Pulls_Less [P2, P1])) =
           [NewVersion P1 ''1:100,2:200'', NewVersion P2 ''1:100,2:200'']"
    by code_simp
  from no_colon_all_new [OF h, of "''2:200''"] l s n
  have a: "AboveTheFold ''2:200'' ''garbage'' = Inr True"
    and c: "Check doubling literal_Match (example_request ''garbage'') (example_manager [P2, P3_skipped, P1]) =
      Inr (sort_Sort CheckResponse_Less
             (map (\<lambda>p. NewVersion p (GenerateVersion (sort_Sort Pulls_Less [P2, P1])))
                (sort_Sort Pulls_Less [P2, P1])))"
    by blast+
  from c have "Check doubling literal_Match (example_request ''garbage'') (example_manager [P2, P3_skipped, P1]) =
      Inr [NewVersion P1 ''1:100,2:200'', NewVersion P2 ''1:100,2:200'']"
    by (simp only: v)
  with h l s n a show ?thesis by blast
qed

subsection \<open>C7\<close>

text \<open>
  C7. The versions that \<open>Check\<close> returns are in ascending order of their committed
  timestamp: of two returned versions, the earlier in the list is never committed after the
  later one.
\<close>

theorem Check_sorted_by_committed:
  "Check grow Match request manager = Inr response \<Longrightarrow>
   sorted_wrt (\<lambda>a b. \<not> After (Version.CommittedDate a) (Version.CommittedDate b)) response"
  using Check_Inr_response_of [of grow Match request manager response] sorted_response_of by auto

theorem Check_sorted_by_committed_witness:
  "Check doubling literal_Match (example_request ''garbage'') (example_manager [P2, P1]) =
     Inr [NewVersion P1 ''1:100,2:200'', NewVersion P2 ''1:100,2:200''] \<and>
   sorted_wrt (\<lambda>a b. \<not> After (Version.CommittedDate a) (Version.CommittedDate b))
     [NewVersion P1 ''1:100,2:200'', NewVersion P2 ''1:100,2:200'']"
proof -
  have c: "Check doubling literal_Match (example_request ''garbage'') (example_manager [P2, P1]) =
     Inr [NewVersion P1 ''1:100,2:200'', NewVersion P2 ''1:100,2:200'']"
    by code_simp
  show ?thesis using c Check_sorted_by_committed [OF c] by simp
qed

subsection \<open>C8\<close>

text \<open>
  C8. The outcome of \<open>Check\<close> is a function of the snapshot and of the previous version:
  two invocations that classify the same snapshot against the same previous version,
  whatever else differs (the listing before the filters, the filters, the source), end
  alike, with the same list of versions and so the same ledger in them, byte for byte, or
  with the same failure.
\<close>

theorem Check_function_of_snapshot_and_previous:
  assumes "snapshot Match request manager = Some records"
    and "snapshot Match' request' manager' = Some records"
    and "Version request' = Version request"
  shows "Check grow Match' request' manager' = Check grow Match request manager"
  unfolding Check_snapshot [OF assms(1)] Check_snapshot [OF assms(2)] assms(3) by (rule refl)

theorem Check_function_of_snapshot_and_previous_witness:
  "snapshot literal_Match (example_request ''1:100,2:200'') (example_manager [P2_advanced, P3_skipped, P1])
     = Some [P2_advanced, P1] \<and>
   snapshot (\<lambda>pattern name. Inr True)
      ((example_request ''1:100,2:200'')\<lparr>Source := example_source\<lparr>DisableCISkip := ''true''\<rparr>\<rparr>)
      (example_manager [P2_advanced, P1])
     = Some [P2_advanced, P1] \<and>
   Version ((example_request ''1:100,2:200'')\<lparr>Source := example_source\<lparr>DisableCISkip := ''true''\<rparr>\<rparr>)
     = Version (example_request ''1:100,2:200'') \<and>
   Check doubling (\<lambda>pattern name. Inr True)
      ((example_request ''1:100,2:200'')\<lparr>Source := example_source\<lparr>DisableCISkip := ''true''\<rparr>\<rparr>)
      (example_manager [P2_advanced, P1])
     = Check doubling literal_Match (example_request ''1:100,2:200'') (example_manager [P2_advanced, P3_skipped, P1]) \<and>
   Check doubling literal_Match (example_request ''1:100,2:200'') (example_manager [P2_advanced, P3_skipped, P1])
     = Inr [NewVersion P2_advanced ''1:100,2:300'']"
proof -
  have s: "snapshot literal_Match (example_request ''1:100,2:200'') (example_manager [P2_advanced, P3_skipped, P1])
     = Some [P2_advanced, P1]"
    by code_simp
  have s': "snapshot (\<lambda>pattern name. Inr True)
      ((example_request ''1:100,2:200'')\<lparr>Source := example_source\<lparr>DisableCISkip := ''true''\<rparr>\<rparr>)
      (example_manager [P2_advanced, P1])
     = Some [P2_advanced, P1]"
    by code_simp
  have v: "Version ((example_request ''1:100,2:200'')\<lparr>Source := example_source\<lparr>DisableCISkip := ''true''\<rparr>\<rparr>)
     = Version (example_request ''1:100,2:200'')"
    by simp
  have c: "Check doubling literal_Match (example_request ''1:100,2:200'') (example_manager [P2_advanced, P3_skipped, P1])
     = Inr [NewVersion P2_advanced ''1:100,2:300'']"
    by code_simp
  from Check_function_of_snapshot_and_previous [OF s s' v, of doubling] s s' v c show ?thesis by blast
qed

subsection \<open>C9\<close>

text \<open>
  C9. \<open>AboveTheFold\<close> is partial. On the ledger \<open>1:5,garbage\<close>, which has a colon but also
  an entry without one, it panics with an index out of range, reading the second field of a
  split that has one. In general it panics on every ledger that has a colon and an entry
  without one, whatever the current entry: decoding is total only if each entry between
  commas has a colon.
\<close>

theorem AboveTheFold_partial:
  "AboveTheFold ''1:5'' ''1:5,garbage'' = Inl (IndexOutOfRange 1 1) \<and>
   (\<forall>cur ledger. strings_Contains ledger '':'' \<and>
        (\<exists>pair\<in>set (strings_Split ledger CHR '',''). CHR '':'' \<notin> set pair) \<longrightarrow>
      isl (AboveTheFold cur ledger))"
proof
  show "AboveTheFold ''1:5'' ''1:5,garbage'' = Inl (IndexOutOfRange 1 1)"
    by code_simp
next
  show "\<forall>cur ledger. strings_Contains ledger '':'' \<and>
        (\<exists>pair\<in>set (strings_Split ledger CHR '',''). CHR '':'' \<notin> set pair) \<longrightarrow>
      isl (AboveTheFold cur ledger)"
  proof (intro allI impI)
    fix cur ledger
    assume a: "strings_Contains ledger '':'' \<and>
        (\<exists>pair\<in>set (strings_Split ledger CHR '',''). CHR '':'' \<notin> set pair)"
    then obtain pair where p: "pair \<in> set (strings_Split ledger CHR '','')" "CHR '':'' \<notin> set pair"
      by blast
    have "isl (ExtractVersionFromVersionString pair)"
      using Extract_no_colon [OF p(2)] by simp
    with p(1) have "\<exists>pair\<in>set (strings_Split ledger CHR '',''). isl (ExtractVersionFromVersionString pair)"
      by blast
    from AboveTheFold_fails [OF conjunct1 [OF a] this, of cur]
    show "isl (AboveTheFold cur ledger)" by auto
  qed
qed

theorem AboveTheFold_partial_witness:
  "strings_Contains ''7:9,,2:3'' '':'' \<and>
   (\<exists>pair\<in>set (strings_Split ''7:9,,2:3'' CHR '',''). CHR '':'' \<notin> set pair) \<and>
   isl (AboveTheFold ''2:4'' ''7:9,,2:3'')"
proof -
  have h: "strings_Contains ''7:9,,2:3'' '':'' \<and>
   (\<exists>pair\<in>set (strings_Split ''7:9,,2:3'' CHR '',''). CHR '':'' \<notin> set pair)"
    by code_simp
  from AboveTheFold_partial have "isl (AboveTheFold ''2:4'' ''7:9,,2:3'')"
    using h by blast
  with h show ?thesis by simp
qed

subsection \<open>C10\<close>

text \<open>
  C10. When \<open>Check\<close> returns newly built versions, that is when some record of the snapshot
  is above the fold, every returned version carries the same ledger: the ledger generated
  once from all records of the snapshot, in ascending order of their numbers.
\<close>

theorem new_versions_share_ledger:
  assumes "snapshot Match request manager = Some records"
    and "Check grow Match request manager = Inr response"
    and "\<exists>p\<in>set records.
           AboveTheFold (GetVersionStringFromPullRequest p) (AlreadySeen (Version request)) = Inr True"
  shows "response \<noteq> [] \<and>
     (\<exists>ordered. mset ordered = mset records \<and>
        sorted_wrt (\<lambda>a b. sint (Number a) \<le> sint (Number b)) ordered \<and>
        (\<forall>v\<in>set response. AlreadySeen v = GenerateVersion ordered))"
proof -
  let ?f = "\<lambda>p. AboveTheFold (GetVersionStringFromPullRequest p) (AlreadySeen (Version request))"
  have ok: "\<forall>p\<in>set records. \<not> isl (?f p)"
    using assms(1,2) by (rule Check_Inr_no_panic)
  from Check_no_panic_news [OF assms(1) ok, of grow] obtain ordered news where
    c: "Check grow Match request manager =
          Inr (response_of (Version request) (GenerateVersion ordered) news)"
    and m: "mset ordered = mset records"
    and s: "sorted_wrt (\<lambda>a b. sint (Number a) \<le> sint (Number b)) ordered"
    and l: "length news = length (filter (\<lambda>p. ?f p = Inr True) records)"
    by blast
  have "filter (\<lambda>p. ?f p = Inr True) records \<noteq> []"
    using assms(3) by (auto simp: filter_empty_conv)
  with l have ne: "news \<noteq> []" by auto
  have r: "response = response_of (Version request) (GenerateVersion ordered) news"
    using c assms(2) by simp
  have a: "\<forall>v\<in>set response. AlreadySeen v = GenerateVersion ordered"
    using AlreadySeen_response_of [OF ne] r by blast
  have "response \<noteq> []" using response_of_not_Nil [OF ne] r by simp
  with m s a show ?thesis by blast
qed

theorem new_versions_share_ledger_witness:
  "snapshot literal_Match (example_request ''1:100'') (example_manager [P5, P6, P7, P1])
     = Some [P5, P6, P7, P1] \<and>
   Check doubling literal_Match (example_request ''1:100'') (example_manager [P5, P6, P7, P1])
     = Inr [NewVersion P1 ''1:100,5:500,6:600,7:700'',
            NewVersion P5 ''1:100,5:500,6:600,7:700'',
            NewVersion P6 ''1:100,5:500,6:600,7:700''] \<and>
   (\<exists>p\<in>set [P5, P6, P7, P1].
      AboveTheFold (GetVersionStringFromPullRequest p)
        (AlreadySeen (Version (example_request ''1:100''))) = Inr True) \<and>
   (\<exists>ordered. mset ordered = mset [P5, P6, P7, P1] \<and>
        sorted_wrt (\<lambda>a b. sint (Number a) \<le> sint (Number b)) ordered \<and>
        (\<forall>v\<in>set [NewVersion P1 ''1:100,5:500,6:600,7:700'',
                  NewVersion P5 ''1:100,5:500,6:600,7:700'',
                  NewVersion P6 ''1:100,5:500,6:600,7:700''].
           AlreadySeen v = GenerateVersion ordered))"
proof -
  have s: "snapshot literal_Match (example_request ''1:100'') (example_manager [P5, P6, P7, P1])
     = Some [P5, P6, P7, P1]"
    by code_simp
  have c: "Check doubling literal_Match (example_request ''1:100'') (example_manager [P5, P6, P7, P1])
     = Inr [NewVersion P1 ''1:100,5:500,6:600,7:700'',
            NewVersion P5 ''1:100,5:500,6:600,7:700'',
            NewVersion P6 ''1:100,5:500,6:600,7:700'']"
    by code_simp
  have a: "\<exists>p\<in>set [P5, P6, P7, P1].
      AboveTheFold (GetVersionStringFromPullRequest p)
        (AlreadySeen (Version (example_request ''1:100''))) = Inr True"
    by code_simp
  from new_versions_share_ledger [OF s c a] s c a show ?thesis by blast
qed

end
